theory Spec2Isabelle
  imports Main "HOL-Library.Monad_Syntax"
begin

section \<open>Values, fetch results and module records\<close>

text \<open>
  JavaScript values as far as the module runner looks at them: a primitive, or a
  reference to an object (compared by identity).
\<close>

datatype primitive = PUndefined | PNull | PBool bool | PNum int | PStr string

datatype js_value = Prim primitive | Ref nat

text \<open>The truthiness test of \<^verbatim>\<open>if (mod.exports)\<close>.\<close>

fun truthy :: "js_value \<Rightarrow> bool" where
  "truthy (Prim PUndefined) = False"
| "truthy (Prim PNull) = False"
| "truthy (Prim (PBool b)) = b"
| "truthy (Prim (PNum n)) = (n \<noteq> 0)"
| "truthy (Prim (PStr s)) = (s \<noteq> [])"
| "truthy (Ref r) = True"

text \<open>
  The answer of the transport (\<^verbatim>\<open>fetchModule\<close>): a cache hit without payload, an
  externalized module (target, kind, optional invalidate flag) or an inlined module
  (code, optional file, optional invalidate flag).
\<close>

datatype module_type = Module | Commonjs | Builtin

datatype fetch_result =
    CachedFetchResult
  | ExternalFetchResult string "module_type option" bool
  | ViteFetchResult "string option" "string option" bool

text \<open>\<^verbatim>\<open>'file' in fetchedModule ? fetchedModule.file : undefined\<close>\<close>

fun file_of :: "fetch_result \<Rightarrow> string option" where
  "file_of (ViteFetchResult c f i) = f"
| "file_of (ExternalFetchResult e t i) = None"
| "file_of CachedFetchResult = None"

text \<open>\<^verbatim>\<open>'invalidate' in fetchedModule && fetchedModule.invalidate\<close>\<close>

fun invalidate_of :: "fetch_result \<Rightarrow> bool" where
  "invalidate_of (ViteFetchResult c f i) = i"
| "invalidate_of (ExternalFetchResult e t i) = i"
| "invalidate_of CachedFetchResult = False"

text \<open>\<^verbatim>\<open>ResolvedResult\<close>: a fetch result on which \<^verbatim>\<open>cachedModule\<close> has written the id.\<close>

record resolved_result =
  result :: fetch_result
  id' :: string

text \<open>
  \<^verbatim>\<open>ModuleCache\<close>, one record per module identity. The two edge sets are JavaScript
  \<^verbatim>\<open>Set\<close>s, which iterate in insertion order: lists without duplicates. A promise is
  known by its identity (a number).
\<close>

record module_cache =
  meta :: "resolved_result option"
  exports :: "js_value option"
  imports' :: "string list"
  importers :: "string list"
  promise :: "nat option"
  evaluated :: "bool option"

definition set_add :: "'a \<Rightarrow> 'a list \<Rightarrow> 'a list" where
  "set_add x xs = (if x \<in> set xs then xs else xs @ [x])"

definition empty_module :: module_cache where
  "empty_module =
     \<lparr>meta = None, exports = None, imports' = [], importers = [],
      promise = None, evaluated = None\<rparr>"

section \<open>The state of a module runner\<close>

text \<open>
  What \<^verbatim>\<open>evaluator\<close> was asked to do by one invocation of \<^verbatim>\<open>directRequest\<close> on the
  record at an address: run an external module, run inlined code, or nothing (the fetch
  result carries no code and \<^verbatim>\<open>directRequest\<close> throws).
\<close>

datatype execution = RunExternal nat | RunInlined nat | FailedLoad nat

fun execution_of :: "execution \<Rightarrow> nat" where
  "execution_of (RunExternal r) = r"
| "execution_of (RunInlined r) = r"
| "execution_of (FailedLoad r) = r"

fun evaluator_ran :: "execution \<Rightarrow> bool" where
  "evaluator_ran (RunExternal r) = True"
| "evaluator_ran (RunInlined r) = True"
| "evaluator_ran (FailedLoad r) = False"

text \<open>
  The fields of \<^verbatim>\<open>ModuleRunner\<close>. Module records are objects shared by reference, so
  they live in a heap (\<open>heap\<close>, with \<open>nextRef\<close> the next free address) and
  \<open>moduleCache\<close> maps an id to the address of its record. \<open>hmrClient\<close> holds the
  listeners of the HMR client when there is one, \<open>sourceMapSupport\<close> whether the
  source map interception is installed. \<open>executions\<close> logs the invocations of
  \<^verbatim>\<open>directRequest\<close>, \<open>invalidations\<close> the records handed to \<^verbatim>\<open>invalidateModule\<close>;
  \<open>nextFuture\<close> and \<open>nextObject\<close> number the promises and the exports objects that
  \<^verbatim>\<open>directRequest\<close> creates.
\<close>

record runner =
  heap :: "nat \<Rightarrow> module_cache"
  nextRef :: nat
  moduleCache :: "string \<rightharpoonup> nat"
  urlToIdMap :: "string \<rightharpoonup> string"
  fileToIdMap :: "string \<rightharpoonup> string list"
  hmrClient :: "nat list option"
  sourceMapSupport :: bool
  root :: string
  destroyed :: bool
  executions :: "execution list"
  invalidations :: "nat list"
  nextFuture :: nat
  nextObject :: nat

text \<open>
  Modelled from the spec: \<^verbatim>\<open>ModuleCacheMap.getByModuleId\<close> (moduleCache.ts is not
  among the sources); the store's \<^verbatim>\<open>getByIdentity(id)\<close> returns the record of the id and
  creates it, with empty edge sets, if absent.
\<close>

definition getByModuleId :: "runner \<Rightarrow> string \<Rightarrow> nat \<times> runner" where
  "getByModuleId st k =
     (case moduleCache st k of
        Some r \<Rightarrow> (r, st)
      | None \<Rightarrow>
          (nextRef st,
           st\<lparr>heap := (heap st)(nextRef st := empty_module),
              moduleCache := (moduleCache st)(k \<mapsto> nextRef st),
              nextRef := Suc (nextRef st)\<rparr>))"

section \<open>Cycle checks\<close>

fun isCurcularModule_loop :: "string list \<Rightarrow> string list \<Rightarrow> bool" where
  "isCurcularModule_loop [] imps = False"
| "isCurcularModule_loop (importedFile # rest) imps =
     (if importedFile \<in> set imps then True else isCurcularModule_loop rest imps)"

definition isCurcularModule :: "module_cache \<Rightarrow> bool" where
  "isCurcularModule m = isCurcularModule_loop (imports' m) (importers m)"

text \<open>
  \<^verbatim>\<open>isCurcularImport\<close> recurses into the importers of every importer. It is a partial
  function: \<open>None\<close> is the recursion that never returns (in JavaScript, until the
  call stack overflows).
\<close>

partial_function (option) isCurcularImport ::
  "runner \<Rightarrow> string list \<Rightarrow> string \<Rightarrow> (bool \<times> runner) option" where
  "isCurcularImport st imps moduleId =
     (case imps of
        [] \<Rightarrow> Some (False, st)
      | importer # rest \<Rightarrow>
          if importer = moduleId then Some (True, st)
          else
            (case getByModuleId st importer of
               (r, st1) \<Rightarrow>
                 if importers (heap st1 r) \<noteq> [] then
                   Option.bind (isCurcularImport st1 (importers (heap st1 r)) moduleId)
                     (\<lambda>(found, st2).
                        if found then Some (True, st2)
                        else isCurcularImport st2 rest moduleId)
                 else isCurcularImport st1 rest moduleId))"


section \<open>Requests\<close>

datatype error =
    DestroyedRuntime
  | MistakenlyInvalidated string
  | TypeError
  | FailedToLoad string "string option"
  | DynamicEnvAccess string
  | ImportAnalysis string
  | Rejected js_value

text \<open>
  Functions the runner imports from files that are not among the sources, taken as
  parameters: \<^verbatim>\<open>normalizeAbsoluteUrl(url, root)\<close>, \<^verbatim>\<open>moduleCache.normalize\<close>,
  \<^verbatim>\<open>wrapId\<close>, \<^verbatim>\<open>unwrapId\<close> and \<^verbatim>\<open>analyzeImportedModDifference(exports, id, type, metadata)\<close>,
  whose result is ignored and which may throw (\<open>Some\<close> the error).
\<close>

record 'md helpers =
  normalizeAbsoluteUrl :: "string \<Rightarrow> string \<Rightarrow> string"
  normalize :: "string \<Rightarrow> string"
  wrapId :: "string \<Rightarrow> string"
  unwrapId :: "string \<Rightarrow> string"
  analyzeImportedModDifference ::
    "js_value \<Rightarrow> string \<Rightarrow> module_type \<Rightarrow> 'md option \<Rightarrow> error option"

definition processImport ::
  "'md helpers \<Rightarrow> js_value \<Rightarrow> resolved_result \<Rightarrow> 'md option \<Rightarrow> error + js_value" where
  "processImport H exps fetchResult metadata =
     (case result fetchResult of
        ExternalFetchResult e t i \<Rightarrow>
          (case t of
             Some Module \<Rightarrow>
               (case analyzeImportedModDifference H exps (id' fetchResult) Module metadata of
                  Some err \<Rightarrow> Inl err | None \<Rightarrow> Inr exps)
           | Some Commonjs \<Rightarrow>
               (case analyzeImportedModDifference H exps (id' fetchResult) Commonjs metadata of
                  Some err \<Rightarrow> Inl err | None \<Rightarrow> Inr exps)
           | _ \<Rightarrow> Inr exps)
      | _ \<Rightarrow> Inr exps)"

text \<open>
  \<^verbatim>\<open>directRequest\<close> up to its first \<^verbatim>\<open>await\<close>: it returns a new promise (its number);
  for an externalized module the evaluator is called and the exports are stored only when
  it answers (\<open>externalDone\<close> below); without code the promise is rejected; otherwise a
  new exports object is stored on the record and the evaluator is called.
\<close>

definition directRequest :: "runner \<Rightarrow> string \<Rightarrow> nat \<Rightarrow> string list \<Rightarrow> nat \<times> runner" where
  "directRequest st ident m callstack =
     (let p = nextFuture st; st0 = st\<lparr>nextFuture := Suc p\<rparr> in
      case meta (heap st m) of
        None \<Rightarrow> (p, st0\<lparr>executions := executions st @ [FailedLoad m]\<rparr>)
      | Some fetchResult \<Rightarrow>
          (case result fetchResult of
             ExternalFetchResult e t i \<Rightarrow>
               (p, st0\<lparr>executions := executions st @ [RunExternal m]\<rparr>)
           | ViteFetchResult None f i \<Rightarrow>
               (p, st0\<lparr>executions := executions st @ [FailedLoad m]\<rparr>)
           | ViteFetchResult (Some c) f i \<Rightarrow>
               (p, st0\<lparr>heap := (heap st)(m := (heap st m)\<lparr>exports := Some (Ref (nextObject st))\<rparr>),
                       nextObject := Suc (nextObject st),
                       executions := executions st @ [RunInlined m]\<rparr>)
           | CachedFetchResult \<Rightarrow>
               (p, st0\<lparr>executions := executions st @ [FailedLoad m]\<rparr>)))"

text \<open>\<^verbatim>\<open>mod.exports = exports\<close> once \<^verbatim>\<open>runExternalModule\<close> has answered.\<close>

definition externalDone :: "runner \<Rightarrow> nat \<Rightarrow> js_value \<Rightarrow> runner" where
  "externalDone st m v = st\<lparr>heap := (heap st)(m := (heap st m)\<lparr>exports := Some v\<rparr>)\<rparr>"

text \<open>
  What the synchronous part of \<^verbatim>\<open>cachedRequest\<close> ends with: a value returned or an
  error thrown before any \<^verbatim>\<open>await\<close>, the promise already on the record, or the promise
  of a \<^verbatim>\<open>directRequest\<close> just started.
\<close>

datatype request_step = Done "error + js_value" | Joined nat | Started nat

text \<open>The \<^verbatim>\<open>try\<close> block of \<^verbatim>\<open>cachedRequest\<close> up to its \<^verbatim>\<open>await\<close>.\<close>

definition single_flight :: "runner \<Rightarrow> string \<Rightarrow> nat \<Rightarrow> string list \<Rightarrow> request_step \<times> runner" where
  "single_flight st ident m callstack =
     (case promise (heap st m) of
        Some p \<Rightarrow> (Joined p, st)
      | None \<Rightarrow>
          (case directRequest st ident m callstack of
             (p, st1) \<Rightarrow>
               (Started p,
                st1\<lparr>heap := (heap st1)(m := (heap st1 m)\<lparr>promise := Some p, evaluated := Some False\<rparr>)\<rparr>)))"

text \<open>\<^verbatim>\<open>if (importee) importers.add(importee)\<close>, with the last entry of the callstack.\<close>

definition register_importer :: "runner \<Rightarrow> nat \<Rightarrow> string list \<Rightarrow> runner" where
  "register_importer st m callstack =
     (if callstack \<noteq> [] \<and> last callstack \<noteq> [] then
        st\<lparr>heap := (heap st)(m := (heap st m)\<lparr>importers := set_add (last callstack) (importers (heap st m))\<rparr>)\<rparr>
      else st)"

text \<open>The condition of the cycle check, evaluated from left to right.\<close>

definition cycle_check :: "runner \<Rightarrow> nat \<Rightarrow> string list \<Rightarrow> string \<Rightarrow> (bool \<times> runner) option" where
  "cycle_check st m callstack moduleId =
     (if moduleId \<in> set callstack then Some (True, st)
      else if isCurcularModule (heap st m) then Some (True, st)
      else isCurcularImport st (importers (heap st m)) moduleId)"

definition has_exports :: "module_cache \<Rightarrow> bool" where
  "has_exports m = (case exports m of Some e \<Rightarrow> truthy e | None \<Rightarrow> False)"

text \<open>
  \<^verbatim>\<open>cachedRequest\<close> up to its first \<^verbatim>\<open>await\<close>, on the record at address \<open>m\<close>.
  \<open>None\<close>: the cycle check does not return.
\<close>

definition cachedRequest ::
  "'md helpers \<Rightarrow> runner \<Rightarrow> string \<Rightarrow> nat \<Rightarrow> string list \<Rightarrow> 'md option
     \<Rightarrow> (request_step \<times> runner) option" where
  "cachedRequest H st ident m callstack metadata =
     (case meta (heap st m) of
        None \<Rightarrow> Some (Done (Inl TypeError), st)
      | Some mt \<Rightarrow>
          (case cycle_check (register_importer st m callstack) m callstack (id' mt) of
             None \<Rightarrow> None
           | Some (circular, st2) \<Rightarrow>
               if circular \<and> has_exports (heap st2 m) then
                 Some (Done (processImport H (the (exports (heap st2 m))) mt metadata), st2)
               else Some (single_flight st2 ident m callstack)))"

text \<open>
  The rest of \<^verbatim>\<open>cachedRequest\<close> once the awaited promise has settled with \<open>settled\<close>:
  the value goes through \<^verbatim>\<open>processImport\<close>, and \<^verbatim>\<open>finally\<close> sets \<^verbatim>\<open>evaluated\<close>.
\<close>

definition cachedRequest_settled ::
  "'md helpers \<Rightarrow> runner \<Rightarrow> nat \<Rightarrow> resolved_result \<Rightarrow> 'md option \<Rightarrow> error + js_value
     \<Rightarrow> (error + js_value) \<times> runner" where
  "cachedRequest_settled H st m mt metadata settled =
     ((case settled of Inl err \<Rightarrow> Inl err | Inr v \<Rightarrow> processImport H v mt metadata),
      st\<lparr>heap := (heap st)(m := (heap st m)\<lparr>evaluated := Some True\<rparr>)\<rparr>)"


text \<open>
  The \<^verbatim>\<open>request\<close> closure that \<^verbatim>\<open>directRequest\<close> hands to the code of the module at
  \<open>m\<close> (id \<open>moduleId\<close>, callstack extended by it), from the point where
  \<^verbatim>\<open>cachedModule(dep, importer)\<close> has answered with the record at \<open>fetched\<close>: both
  edges are added, then \<^verbatim>\<open>cachedRequest\<close> runs.
\<close>

definition request_edges :: "runner \<Rightarrow> nat \<Rightarrow> string \<Rightarrow> string \<Rightarrow> runner" where
  "request_edges st m moduleId resolvedId =
     (case getByModuleId st resolvedId of
        (depMod, st1) \<Rightarrow>
          (let st2 = st1\<lparr>heap := (heap st1)(depMod := (heap st1 depMod)
                         \<lparr>importers := set_add moduleId (importers (heap st1 depMod))\<rparr>)\<rparr>
           in st2\<lparr>heap := (heap st2)(m := (heap st2 m)
                         \<lparr>imports' := set_add resolvedId (imports' (heap st2 m))\<rparr>)\<rparr>))"

definition request ::
  "'md helpers \<Rightarrow> runner \<Rightarrow> nat \<Rightarrow> string \<Rightarrow> string list \<Rightarrow> string \<Rightarrow> nat \<Rightarrow> 'md option
     \<Rightarrow> (request_step \<times> runner) option" where
  "request H st m moduleId callstack dep fetched metadata =
     (case meta (heap st fetched) of
        None \<Rightarrow> Some (Done (Inl TypeError), st)
      | Some mt \<Rightarrow>
          cachedRequest H (request_edges st m moduleId (id' mt)) dep fetched callstack metadata)"

section \<open>Resolution\<close>

text \<open>\<^verbatim>\<open>String.prototype.split\<close> on a one-character separator, and \<^verbatim>\<open>startsWith\<close>.\<close>

fun js_split :: "char \<Rightarrow> string \<Rightarrow> string list" where
  "js_split c [] = [[]]"
| "js_split c (x # xs) =
     (if x = c then [] # js_split c xs
      else (case js_split c xs of p # ps \<Rightarrow> (x # p) # ps | [] \<Rightarrow> [[x]]))"

definition startsWith :: "string \<Rightarrow> string \<Rightarrow> bool" where
  "startsWith s p = (take (length p) s = p)"

text \<open>
  \<^verbatim>\<open>const idQuery = url.split('?')[1]; const query = idQuery ? `?${idQuery}` : ''\<close>
\<close>

definition query_of :: "string \<Rightarrow> string" where
  "query_of url =
     (case js_split CHR ''?'' url of
        p # idQuery # ps \<Rightarrow> if idQuery \<noteq> [] then CHR ''?'' # idQuery else []
      | _ \<Rightarrow> [])"

text \<open>
  Modelled from the spec: \<^verbatim>\<open>ModuleCacheMap.invalidateModule\<close> (moduleCache.ts is not
  among the sources); "the record is reset (exports/promise/evaluated cleared, edges
  cleared)". The record is noted in \<open>invalidations\<close>.
\<close>

definition invalidateModule :: "runner \<Rightarrow> nat \<Rightarrow> runner" where
  "invalidateModule st m =
     st\<lparr>heap := (heap st)(m := (heap st m)
           \<lparr>exports := None, imports' := [], importers := [], promise := None, evaluated := None\<rparr>),
        invalidations := invalidations st @ [m]\<rparr>"

text \<open>
  \<^verbatim>\<open>cachedModule\<close> in two parts, since other requests may run while the transport is
  awaited. First the part before the transport is called: the url as normalized, the
  record found for it and whether it counts as cached.
\<close>

definition cachedModule_lookup ::
  "'md helpers \<Rightarrow> runner \<Rightarrow> string \<Rightarrow> error + (string \<times> nat \<times> bool \<times> runner)" where
  "cachedModule_lookup H st url0 =
     (if destroyed st then Inl DestroyedRuntime
      else
        (let url = normalizeAbsoluteUrl H url0 (root st) in
         case (case urlToIdMap st url of
                 Some normalized \<Rightarrow>
                   if normalized \<noteq> [] then getByModuleId st normalized
                   else getByModuleId st url
               | None \<Rightarrow> getByModuleId st url) of
           (cachedMod, st1) \<Rightarrow> Inr (url, cachedMod, meta (heap st1 cachedMod) \<noteq> None, st1)))"

text \<open>
  The transport, \<^verbatim>\<open>fetchModule(url, importer, {cached})\<close>: its promise is fulfilled
  with one of the three fetch results (\<open>Inr\<close>), or the call throws or its promise is
  rejected, with any value as the reason (\<open>Inl\<close>). \<^verbatim>\<open>cachedModule\<close> awaits it outside
  of any \<^verbatim>\<open>try\<close>, so the reason is what \<^verbatim>\<open>cachedModule\<close> then throws. A \<^verbatim>\<open>data:\<close> url
  is answered without the transport.
\<close>

type_synonym transport = "string \<Rightarrow> string option \<Rightarrow> bool \<Rightarrow> js_value + fetch_result"

definition fetchedModule_of ::
  "transport \<Rightarrow> string \<Rightarrow> string option \<Rightarrow> bool \<Rightarrow> error + fetch_result" where
  "fetchedModule_of fetchModule url importer isCached =
     (if startsWith url ''data:'' then Inr (ExternalFetchResult url (Some Builtin) False)
      else
        (case fetchModule url importer isCached of
           Inl reason \<Rightarrow> Inl (Rejected reason)
         | Inr fetchedModule \<Rightarrow> Inr fetchedModule))"

text \<open>
  The id of the module, lines 279 to 283: \<^verbatim>\<open>file\<close> counts when the fetch result has
  one that is not empty, and then the id is made of the file and the query; otherwise of
  the url.
\<close>

definition file_if_any :: "fetch_result \<Rightarrow> string option" where
  "file_if_any fetchedModule =
     (case file_of fetchedModule of
        Some f \<Rightarrow> if f \<noteq> [] then Some f else None
      | None \<Rightarrow> None)"

definition moduleId_of :: "'md helpers \<Rightarrow> string \<Rightarrow> fetch_result \<Rightarrow> string" where
  "moduleId_of H url fetchedModule =
     normalize H
       (case file_if_any fetchedModule of Some f \<Rightarrow> f @ query_of url | None \<Rightarrow> url)"

text \<open>The part of \<^verbatim>\<open>cachedModule\<close> after the transport has answered.\<close>

definition cachedModule_fetched ::
  "'md helpers \<Rightarrow> runner \<Rightarrow> string \<Rightarrow> nat \<Rightarrow> fetch_result \<Rightarrow> error + (nat \<times> runner)" where
  "cachedModule_fetched H st url cachedMod fetchedModule =
     (if fetchedModule = CachedFetchResult then
        (if meta (heap st cachedMod) = None then Inl (MistakenlyInvalidated url)
         else Inr (cachedMod, st))
      else
        (let moduleId = moduleId_of H url fetchedModule in
         case getByModuleId st moduleId of
           (m, st1) \<Rightarrow>
             (let st2 = (if invalidate_of fetchedModule then invalidateModule st1 m else st1);
                  st3 = st2\<lparr>heap := (heap st2)(m := (heap st2 m)
                           \<lparr>meta := Some \<lparr>result = fetchedModule, id' = moduleId\<rparr>\<rparr>)\<rparr>;
                  st4 = (case file_if_any fetchedModule of
                           Some f \<Rightarrow>
                             st3\<lparr>fileToIdMap := (fileToIdMap st3)
                                   (f \<mapsto> (case fileToIdMap st3 f of Some ids \<Rightarrow> ids | None \<Rightarrow> [])
                                          @ [moduleId])\<rparr>
                         | None \<Rightarrow> st3)
              in Inr (m, st4\<lparr>urlToIdMap :=
                                (urlToIdMap st4)(url \<mapsto> moduleId, unwrapId H url \<mapsto> moduleId)\<rparr>))))"

text \<open>
  \<^verbatim>\<open>cachedModule\<close> when nothing else runs while the transport is awaited and the
  promise of the transport settles.
\<close>

definition cachedModule ::
  "'md helpers \<Rightarrow> transport \<Rightarrow> runner \<Rightarrow> string \<Rightarrow> string option \<Rightarrow> error + (nat \<times> runner)" where
  "cachedModule H fetchModule st url0 importer =
     (case cachedModule_lookup H st url0 of
        Inl err \<Rightarrow> Inl err
      | Inr (url, cachedMod, isCached, st1) \<Rightarrow>
          (case fetchedModule_of fetchModule url importer isCached of
             Inl err \<Rightarrow> Inl err
           | Inr fetchedModule \<Rightarrow> cachedModule_fetched H st1 url cachedMod fetchedModule))"

section \<open>Clearing and destroying\<close>

text \<open>
  Modelled from the spec: \<^verbatim>\<open>ModuleCacheMap.clear\<close> and \<^verbatim>\<open>HMRClient.clear\<close> (neither
  file is among the sources); the store's \<^verbatim>\<open>clearAll()\<close> removes every record from the
  store, and clearing the HMR client removes its listeners.
\<close>

definition clearCache :: "runner \<Rightarrow> runner" where
  "clearCache st =
     st\<lparr>moduleCache := Map.empty,
        urlToIdMap := Map.empty,
        hmrClient := (case hmrClient st of Some listeners \<Rightarrow> Some [] | None \<Rightarrow> None)\<rparr>"

definition destroy :: "runner \<Rightarrow> runner" where
  "destroy st = (clearCache (st\<lparr>sourceMapSupport := False\<rparr>))\<lparr>hmrClient := None, destroyed := True\<rparr>"

section \<open>A runner and a transport to run the model on\<close>

text \<open>
  The constructor of \<^verbatim>\<open>ModuleRunner\<close>, with a new module cache: the root gets a
  trailing slash, the HMR client exists when \<^verbatim>\<open>options.hmr\<close> is an object, source map
  support is installed unless \<^verbatim>\<open>options.sourcemapInterceptor\<close> is \<^verbatim>\<open>false\<close>.
\<close>

definition ModuleRunner :: "string \<Rightarrow> bool \<Rightarrow> bool \<Rightarrow> runner" where
  "ModuleRunner rt hmr smap =
     \<lparr>heap = (\<lambda>r. empty_module), nextRef = 0, moduleCache = Map.empty,
      urlToIdMap = Map.empty, fileToIdMap = Map.empty,
      hmrClient = (if hmr then Some [] else None), sourceMapSupport = smap,
      root = (if rt \<noteq> [] \<and> last rt = CHR ''/'' then rt else rt @ ''/''),
      destroyed = False, executions = [], invalidations = [], nextFuture = 0, nextObject = 0\<rparr>"

text \<open>
  Helpers that change nothing, and a transport that answers a cached request with a
  cache hit and any other with code whose file is the url.
\<close>

definition plain_helpers :: "unit helpers" where
  "plain_helpers =
     \<lparr>normalizeAbsoluteUrl = (\<lambda>url rt. url), normalize = (\<lambda>fileId. fileId),
      wrapId = (\<lambda>ident. ident), unwrapId = (\<lambda>url. url),
      analyzeImportedModDifference = (\<lambda>e i t m. None)\<rparr>"

definition plain_transport :: transport where
  "plain_transport url importer isCached =
     (if isCached then Inr CachedFetchResult
      else Inr (ViteFetchResult (Some ''code'') (Some url) False))"

text \<open>
  Three modules: A imports B, and B imports A and then C. \<open>B_resolves_A\<close> is the
  runner at the moment the code of B has asked for A and \<^verbatim>\<open>cachedModule\<close> has
  answered: A has been resolved and requested from the outside, B resolved and requested
  by A, and A resolved again for B. It comes with the addresses of the records of A and
  B and of the record resolved for B.
\<close>

definition B_resolves_A :: "(nat \<times> nat \<times> nat \<times> runner) option" where
  "B_resolves_A =
     (case cachedModule plain_helpers plain_transport (ModuleRunner ''/r'' False False) ''A'' None of
        Inl e \<Rightarrow> None
      | Inr (a, s1) \<Rightarrow>
     (case cachedRequest plain_helpers s1 ''A'' a [] None of
        None \<Rightarrow> None
      | Some (ra, s2) \<Rightarrow>
     (case cachedModule plain_helpers plain_transport s2 ''B'' (Some ''A'') of
        Inl e \<Rightarrow> None
      | Inr (b, s3) \<Rightarrow>
     (case request plain_helpers s3 a ''A'' [''A''] ''B'' b None of
        None \<Rightarrow> None
      | Some (rb, s4) \<Rightarrow>
     (case cachedModule plain_helpers plain_transport s4 ''A'' (Some ''B'') of
        Inl e \<Rightarrow> None
      | Inr (a', s5) \<Rightarrow> Some (a, b, a', s5))))))"

text \<open>
  \<open>import_cycle\<close> goes on from there to the moment the code of B asks for C: B has
  requested A (and got the unfinished exports of A), and C has been resolved for B.
\<close>

definition import_cycle :: "runner option" where
  "import_cycle =
     (case B_resolves_A of
        None \<Rightarrow> None
      | Some (a, b, a', s5) \<Rightarrow>
     (case request plain_helpers s5 b ''B'' [''A'', ''B''] ''A'' a' None of
        None \<Rightarrow> None
      | Some (ra', s6) \<Rightarrow>
     (case cachedModule plain_helpers plain_transport s6 ''C'' (Some ''B'') of
        Inl e \<Rightarrow> None
      | Inr (c, s7) \<Rightarrow> Some s7)))"

section \<open>What the cycle search leaves as it was\<close>

text \<open>
  \<open>grown st st'\<close>: from \<open>st\<close> to \<open>st'\<close> nothing happened but the creation of
  records for ids that had none.
\<close>

definition grown :: "runner \<Rightarrow> runner \<Rightarrow> bool" where
  "grown st st' =
     ((\<forall>r. r < nextRef st \<longrightarrow> heap st' r = heap st r) \<and> nextRef st \<le> nextRef st' \<and>
      (\<forall>k r. moduleCache st k = Some r \<longrightarrow> moduleCache st' k = Some r) \<and>
      urlToIdMap st' = urlToIdMap st \<and> fileToIdMap st' = fileToIdMap st \<and>
      hmrClient st' = hmrClient st \<and> sourceMapSupport st' = sourceMapSupport st \<and>
      root st' = root st \<and> destroyed st' = destroyed st \<and>
      executions st' = executions st \<and> invalidations st' = invalidations st \<and>
      nextFuture st' = nextFuture st \<and> nextObject st' = nextObject st)"

text \<open>
  A transport whose module has changed: it answers with new code and the invalidate
  flag. \<open>A_changed\<close> is the runner after A has been resolved and requested, and then
  resolved again through this transport (a second import of A after an edit); it comes
  with the address of the record of A and the promise the first request started.
\<close>

definition changed_transport :: transport where
  "changed_transport url importer isCached = Inr (ViteFetchResult (Some ''code2'') (Some url) True)"

definition A_changed :: "(nat \<times> request_step \<times> nat \<times> runner) option" where
  "A_changed =
     (case cachedModule plain_helpers plain_transport (ModuleRunner ''/r'' False False) ''A'' None of
        Inl e \<Rightarrow> None
      | Inr (a, s1) \<Rightarrow>
     (case cachedRequest plain_helpers s1 ''A'' a [] None of
        None \<Rightarrow> None
      | Some (first, s2) \<Rightarrow>
     (case cachedModule plain_helpers changed_transport s2 ''A'' None of
        Inl e \<Rightarrow> None
      | Inr (a', s3) \<Rightarrow> Some (a, first, a', s3))))"

section \<open>The env object of \<^verbatim>\<open>import.meta\<close>\<close>

text \<open>
  A property key is a string or a symbol; \<^verbatim>\<open>String(p)\<close> of a symbol shows its
  description. \<open>envProxy_get\<close> is the \<^verbatim>\<open>get\<close> trap of \<^verbatim>\<open>envProxy\<close>, the only trap the
  proxy has; the error carries the key that the message names.
\<close>

datatype property_key = StringKey string | SymbolKey string

fun String_of :: "property_key \<Rightarrow> string" where
  "String_of (StringKey s) = s"
| "String_of (SymbolKey d) = ''Symbol('' @ d @ '')''"

definition envProxy_get :: "property_key \<Rightarrow> error + js_value" where
  "envProxy_get p = Inl (DynamicEnvAccess (String_of p))"

section \<open>What the store holds for a url\<close>

text \<open>
  The record that the store already holds for a url, if any: the one of the id noted
  for the url, when a non-empty id is noted, else the one filed under the url itself.
  \<open>has_cached_meta\<close>: there is such a record and it has its meta.
\<close>

definition cached_record :: "runner \<Rightarrow> string \<Rightarrow> nat option" where
  "cached_record st url =
     (case urlToIdMap st url of
        Some normalized \<Rightarrow> if normalized \<noteq> [] then moduleCache st normalized else moduleCache st url
      | None \<Rightarrow> moduleCache st url)"

definition has_cached_meta :: "runner \<Rightarrow> string \<Rightarrow> bool" where
  "has_cached_meta st url =
     (case cached_record st url of Some r \<Rightarrow> meta (heap st r) \<noteq> None | None \<Rightarrow> False)"



text \<open>
  \<open>A_resolved\<close>: a runner with an HMR client that has a listener, after A has been
  resolved on it.
\<close>

definition A_resolved :: "(nat \<times> runner) option" where
  "A_resolved =
     (case cachedModule plain_helpers plain_transport
             ((ModuleRunner ''/r'' True True)\<lparr>hmrClient := Some [7]\<rparr>) ''A'' None of
        Inl e \<Rightarrow> None
      | Inr (a, s) \<Rightarrow> Some (a, s))"

section \<open>The query string of a url\<close>


section \<open>Sequences of operations\<close>

text \<open>
  What can happen to a runner between two points of suspension, one event each: the
  synchronous part of a \<^verbatim>\<open>cachedRequest\<close>, its rest once the promise has settled, the
  storing of the exports of an externalized module, the two edges of the \<^verbatim>\<open>request\<close>
  closure, the two parts of \<^verbatim>\<open>cachedModule\<close> (the second with any answer of the
  transport; it does not happen when the call of the transport fails), \<^verbatim>\<open>clearCache\<close>
  and \<^verbatim>\<open>destroy\<close>. Requests that run concurrently are a sequence of
  such events in the order in which the scheduler runs them. An operation that throws
  leaves the state as it was; \<open>None\<close>: the cycle check of a request does not return.
\<close>

datatype 'md event =
    Request string nat "string list" "'md option"
  | Settled nat resolved_result "'md option" "error + js_value"
  | ExternalDone nat js_value
  | Edges nat string string
  | Lookup string
  | Fetched string nat fetch_result
  | ClearCache
  | Destroy

fun event_step :: "'md helpers \<Rightarrow> 'md event \<Rightarrow> runner \<Rightarrow> runner option" where
  "event_step H (Request ident m callstack metadata) st =
     (case cachedRequest H st ident m callstack metadata of
        None \<Rightarrow> None
      | Some (r, st') \<Rightarrow> Some st')"
| "event_step H (Settled m mt metadata settled) st =
     Some (snd (cachedRequest_settled H st m mt metadata settled))"
| "event_step H (ExternalDone m v) st = Some (externalDone st m v)"
| "event_step H (Edges m moduleId resolvedId) st = Some (request_edges st m moduleId resolvedId)"
| "event_step H (Lookup url) st =
     (case cachedModule_lookup H st url of
        Inl err \<Rightarrow> Some st
      | Inr (url', cachedMod, isCached, st') \<Rightarrow> Some st')"
| "event_step H (Fetched url cachedMod fetchedModule) st =
     (case cachedModule_fetched H st url cachedMod fetchedModule of
        Inl err \<Rightarrow> Some st
      | Inr (m, st') \<Rightarrow> Some st')"
| "event_step H ClearCache st = Some (clearCache st)"
| "event_step H Destroy st = Some (destroy st)"

fun run :: "'md helpers \<Rightarrow> 'md event list \<Rightarrow> runner \<Rightarrow> runner option" where
  "run H [] st = Some st"
| "run H (ev # evs) st = (case event_step H ev st of None \<Rightarrow> None | Some st1 \<Rightarrow> run H evs st1)"

text \<open>
  For the record at \<open>m\<close>: how often \<^verbatim>\<open>directRequest\<close> was invoked on it, how often the
  evaluator was called for it, how often it was invalidated, and whether it has no
  promise (1) or has one (0).
\<close>

definition started :: "runner \<Rightarrow> nat \<Rightarrow> nat" where
  "started st m = length (filter (\<lambda>e. execution_of e = m) (executions st))"

definition evaluated_by :: "runner \<Rightarrow> nat \<Rightarrow> nat" where
  "evaluated_by st m = length (filter (\<lambda>e. execution_of e = m \<and> evaluator_ran e) (executions st))"

definition reset :: "runner \<Rightarrow> nat \<Rightarrow> nat" where
  "reset st m = length (filter (\<lambda>r. r = m) (invalidations st))"

definition idle :: "runner \<Rightarrow> nat \<Rightarrow> nat" where
  "idle st m = (if promise (heap st m) = None then 1 else 0)"

text \<open>A fetch result that \<^verbatim>\<open>directRequest\<close> hands to the evaluator.\<close>

fun runnable :: "fetch_result \<Rightarrow> bool" where
  "runnable (ExternalFetchResult e t i) = True"
| "runnable (ViteFetchResult (Some c) f i) = True"
| "runnable (ViteFetchResult None f i) = False"
| "runnable CachedFetchResult = False"

text \<open>
  \<open>within st st' m\<close>: from \<open>st\<close> to \<open>st'\<close> the record at \<open>m\<close> has seen no more new
  invocations of \<^verbatim>\<open>directRequest\<close> than new invalidations, one more if it had no promise
  in \<open>st\<close>, one less if it has none in \<open>st'\<close>; the evaluator was called at most once per
  invocation; nothing is taken back from the logs or the heap; and with no new
  invocation and no new invalidation the promise is the one it was.
\<close>

definition within :: "runner \<Rightarrow> runner \<Rightarrow> nat \<Rightarrow> bool" where
  "within st st' m =
     (started st' m + reset st m + idle st' m \<le> started st m + reset st' m + idle st m \<and>
      evaluated_by st' m + started st m \<le> evaluated_by st m + started st' m \<and>
      started st m \<le> started st' m \<and> evaluated_by st m \<le> evaluated_by st' m \<and>
      reset st m \<le> reset st' m \<and> nextRef st \<le> nextRef st' \<and>
      (started st' m = started st m \<and> reset st' m = reset st m \<longrightarrow>
         promise (heap st' m) = promise (heap st m)))"

section \<open>Objects and \<^verbatim>\<open>exportAll\<close>\<close>

text \<open>
  Objects as \<^verbatim>\<open>exportAll\<close> sees them. An object is an array, a promise or neither, has
  its own string-keyed properties in the order in which \<^verbatim>\<open>for ... in\<close> visits them, and
  is extensible or not; inherited properties are not modelled. A property is a data
  property (value, enumerable, configurable) or an accessor whose getter is the arrow
  function \<^verbatim>\<open>() => sourceModule[key]\<close> of \<^verbatim>\<open>exportAll\<close>, known by the address of the source
  and the key (then enumerable, configurable). The heap maps the address of \<open>Ref\<close> to
  the object.
\<close>

datatype object_kind = OrdinaryObject | ArrayObject | PromiseObject

datatype property =
    Data js_value bool bool
  | Accessor nat string bool bool

fun enumerable :: "property \<Rightarrow> bool" where
  "enumerable (Data v e c) = e"
| "enumerable (Accessor s k e c) = e"

fun configurable :: "property \<Rightarrow> bool" where
  "configurable (Data v e c) = c"
| "configurable (Accessor s k e c) = c"

record js_object =
  kind :: object_kind
  props :: "(string \<times> property) list"
  extensible :: bool

type_synonym object_heap = "nat \<rightharpoonup> js_object"

text \<open>
  Modelled from the spec: \<^verbatim>\<open>isPrimitive\<close> (shared/utils is not among the sources); the
  source "is a primitive".
\<close>

fun isPrimitive :: "js_value \<Rightarrow> bool" where
  "isPrimitive (Prim p) = True"
| "isPrimitive (Ref r) = False"

text \<open>\<^verbatim>\<open>Array.isArray(v)\<close> and \<^verbatim>\<open>v instanceof Promise\<close>.\<close>

definition isArray :: "object_heap \<Rightarrow> js_value \<Rightarrow> bool" where
  "isArray h v =
     (case v of
        Prim p \<Rightarrow> False
      | Ref r \<Rightarrow> (case h r of Some ob \<Rightarrow> kind ob = ArrayObject | None \<Rightarrow> False))"

definition isPromise :: "object_heap \<Rightarrow> js_value \<Rightarrow> bool" where
  "isPromise h v =
     (case v of
        Prim p \<Rightarrow> False
      | Ref r \<Rightarrow> (case h r of Some ob \<Rightarrow> kind ob = PromiseObject | None \<Rightarrow> False))"

text \<open>The keys that \<^verbatim>\<open>for (const key in sourceModule)\<close> visits.\<close>

definition for_in_keys :: "object_heap \<Rightarrow> nat \<Rightarrow> string list" where
  "for_in_keys h s =
     (case h s of
        Some ob \<Rightarrow> map fst (filter (\<lambda>kp. enumerable (snd kp)) (props ob))
      | None \<Rightarrow> [])"

text \<open>
  \<^verbatim>\<open>Object.defineProperty(exports, key, {enumerable: true, configurable: true, get})\<close>:
  it throws on what is not an object, on a new key of an object that is not extensible
  and on a key whose property is not configurable; a property that is replaced keeps its
  place.
\<close>

definition defineProperty :: "object_heap \<Rightarrow> js_value \<Rightarrow> string \<Rightarrow> nat \<Rightarrow> error + object_heap" where
  "defineProperty h target key src =
     (case target of
        Prim p \<Rightarrow> Inl TypeError
      | Ref t \<Rightarrow>
          (case h t of
             None \<Rightarrow> Inl TypeError
           | Some ob \<Rightarrow>
               (case map_of (props ob) key of
                  None \<Rightarrow>
                    if extensible ob
                    then Inr (h(t \<mapsto> ob\<lparr>props := props ob @ [(key, Accessor src key True True)]\<rparr>))
                    else Inl TypeError
                | Some current \<Rightarrow>
                    if configurable current
                    then Inr (h(t \<mapsto> ob\<lparr>props :=
                                 map (\<lambda>kp. if fst kp = key then (key, Accessor src key True True) else kp)
                                   (props ob)\<rparr>))
                    else Inl TypeError)))"

fun exportAll_loop :: "object_heap \<Rightarrow> js_value \<Rightarrow> nat \<Rightarrow> string list \<Rightarrow> object_heap" where
  "exportAll_loop h exps src [] = h"
| "exportAll_loop h exps src (key # keys) =
     (if key \<noteq> ''default'' \<and> key \<noteq> ''__esModule'' then
        (case defineProperty h exps key src of
           Inl err \<Rightarrow> exportAll_loop h exps src keys
         | Inr h' \<Rightarrow> exportAll_loop h' exps src keys)
      else exportAll_loop h exps src keys)"

definition exportAll :: "object_heap \<Rightarrow> js_value \<Rightarrow> js_value \<Rightarrow> object_heap" where
  "exportAll h exps sourceModule =
     (if exps = sourceModule then h
      else if isPrimitive sourceModule \<or> isArray h sourceModule \<or> isPromise h sourceModule then h
      else (case sourceModule of
              Ref s \<Rightarrow> exportAll_loop h exps s (for_in_keys h s)
            | Prim p \<Rightarrow> h))"

text \<open>
  Reading \<^verbatim>\<open>object[key]\<close>: the value of a data property, what the getter of an accessor
  reads from its source at that moment, \<^verbatim>\<open>undefined\<close> without the property. \<open>None\<close>:
  getters that read from each other in a circle never return.
\<close>

partial_function (option) js_get :: "object_heap \<Rightarrow> nat \<Rightarrow> string \<Rightarrow> js_value option" where
  "js_get h r key =
     (case h r of
        None \<Rightarrow> Some (Prim PUndefined)
      | Some ob \<Rightarrow>
          (case map_of (props ob) key of
             None \<Rightarrow> Some (Prim PUndefined)
           | Some (Data v e c) \<Rightarrow> Some v
           | Some (Accessor src k e c) \<Rightarrow> js_get h src k))"

text \<open>The own property of the object at an address under a key, if any.\<close>

definition own_property :: "object_heap \<Rightarrow> nat \<Rightarrow> string \<Rightarrow> property option" where
  "own_property h r key = (case h r of Some ob \<Rightarrow> map_of (props ob) key | None \<Rightarrow> None)"

text \<open>Whether \<^verbatim>\<open>Object.defineProperty\<close> accepts a configurable property under the key.\<close>

definition definable :: "object_heap \<Rightarrow> js_value \<Rightarrow> string \<Rightarrow> bool" where
  "definable h target key =
     (case target of
        Prim p \<Rightarrow> False
      | Ref t \<Rightarrow>
          (case h t of
             None \<Rightarrow> False
           | Some ob \<Rightarrow>
               (case map_of (props ob) key of
                  None \<Rightarrow> extensible ob
                | Some current \<Rightarrow> configurable current)))"

text \<open>
  The example of the spec: a namespace without properties at address 0, a source with
  \<^verbatim>\<open>a\<close>, \<^verbatim>\<open>b\<close>, \<^verbatim>\<open>default\<close> and \<^verbatim>\<open>__esModule\<close> at address 1, and a frozen object at 2.
\<close>

definition example_heap :: object_heap where
  "example_heap =
     [0 \<mapsto> \<lparr>kind = OrdinaryObject, props = [], extensible = True\<rparr>,
      1 \<mapsto> \<lparr>kind = OrdinaryObject,
            props = [(''a'', Data (Prim (PNum 1)) True True), (''b'', Data (Prim (PNum 2)) True True),
                     (''default'', Data (Prim (PNum 99)) True True),
                     (''__esModule'', Data (Prim (PBool True)) True True)],
            extensible = True\<rparr>,
      2 \<mapsto> \<lparr>kind = OrdinaryObject, props = [(''a'', Data (Prim (PNum 7)) True False)],
            extensible = False\<rparr>]"

section \<open>The cycle search does not always return\<close>

text \<open>
  When two modules import each other and neither is the module searched for, the search
  that enters one of them goes round for ever: nothing marks a module as visited.
\<close>

lemma isCurcularImport_stuck:
  assumes "isCurcularImport st' imps mid' = Some y"
    and "moduleCache st A = Some a" and "moduleCache st B = Some b"
    and "importers (heap st a) = B # xs" and "importers (heap st b) = A # ys"
    and "A \<noteq> mid" and "B \<noteq> mid"
  shows "\<not> (st' = st \<and> mid' = mid \<and> (\<exists>zs. imps = A # zs \<or> imps = B # zs))"
  using assms(1)
proof (induction rule: isCurcularImport.raw_induct[rotated 1, consumes 1])
  case (1 f st' imps mid' y)
  note step = this
  have gA: "getByModuleId st A = (a, st)" and gB: "getByModuleId st B = (b, st)"
    using assms(2,3) by (simp_all add: getByModuleId_def)
  show ?case
  proof
    assume h: "st' = st \<and> mid' = mid \<and> (\<exists>zs. imps = A # zs \<or> imps = B # zs)"
    then obtain zs where "imps = A # zs \<or> imps = B # zs" by blast
    then show False
    proof
      assume "imps = A # zs"
      with h step(2) assms(4,6) have "f st (B # xs) mid \<noteq> None"
        by (auto simp: gA Option.bind_eq_Some_conv)
      with step(1) show False by blast
    next
      assume "imps = B # zs"
      with h step(2) assms(5,7) have "f st (A # ys) mid \<noteq> None"
        by (auto simp: gB Option.bind_eq_Some_conv)
      with step(1) show False by blast
    qed
  qed
qed

lemma isCurcularImport_diverges:
  assumes "moduleCache st A = Some a" and "moduleCache st B = Some b"
    and "importers (heap st a) = B # xs" and "importers (heap st b) = A # ys"
    and "A \<noteq> mid" and "B \<noteq> mid"
  shows "isCurcularImport st (B # zs) mid = None"
proof (cases "isCurcularImport st (B # zs) mid")
  case None
  then show ?thesis .
next
  case (Some y)
  from isCurcularImport_stuck[OF Some assms] show ?thesis by blast
qed

lemma register_importer_known:
  assumes "last callstack \<in> set (importers (heap st m))"
  shows "register_importer st m callstack = st"
proof -
  have "set_add (last callstack) (importers (heap st m)) = importers (heap st m)"
    using assms by (simp add: set_add_def)
  then show ?thesis by (simp add: register_importer_def)
qed

lemmas runner_defs =
  cachedModule_def cachedModule_lookup_def cachedModule_fetched_def fetchedModule_of_def
  plain_transport_def plain_helpers_def ModuleRunner_def getByModuleId_def startsWith_def
  query_of_def empty_module_def cachedRequest_def request_def request_edges_def
  register_importer_def cycle_check_def isCurcularModule_def isCurcularImport.simps
  single_flight_def directRequest_def has_exports_def processImport_def set_add_def
  invalidateModule_def file_if_any_def moduleId_of_def Let_def

lemma import_cycle_state:
  "\<exists>s. import_cycle = Some s \<and>
       moduleCache s ''A'' = Some 0 \<and> moduleCache s ''B'' = Some 1 \<and>
       moduleCache s ''C'' = Some 2 \<and>
       importers (heap s 0) = [''B''] \<and> importers (heap s 1) = [''A''] \<and>
       importers (heap s 2) = [] \<and> imports' (heap s 2) = [] \<and>
       map_option id' (meta (heap s 2)) = Some ''C''"
  by (simp add: import_cycle_def B_resolves_A_def runner_defs)

text \<open>
  C5 (the code departs from the claim). The claim: the transitive importer search
  terminates in every state of the module graph, because it tracks the nodes it has
  visited. The code tracks nothing. In the run of \<open>import_cycle\<close> every step returns,
  and the state it ends in has A and B importing each other; when B then requests C,
  the edges are added, and neither the search through the importers of C nor the
  request itself returns.
\<close>

theorem isCurcularImport_never_returns:
  "\<exists>s. import_cycle = Some s \<and>
       isCurcularImport (request_edges s 1 ''B'' ''C'')
         (importers (heap (request_edges s 1 ''B'' ''C'') 2)) ''C'' = None \<and>
       request plain_helpers s 1 ''B'' [''A'', ''B''] ''C'' 2 None = None"
proof -
  obtain s where s: "import_cycle = Some s"
    and mc: "moduleCache s ''A'' = Some 0" "moduleCache s ''B'' = Some 1"
      "moduleCache s ''C'' = Some 2"
    and imps: "importers (heap s 0) = [''B'']" "importers (heap s 1) = [''A'']"
      "importers (heap s 2) = []"
    and deps: "imports' (heap s 2) = []"
    and mt: "map_option id' (meta (heap s 2)) = Some ''C''"
    using import_cycle_state by blast
  define s' where "s' = request_edges s 1 ''B'' ''C''"
  have mc': "moduleCache s' ''A'' = Some 0" "moduleCache s' ''B'' = Some 1"
    and imps': "importers (heap s' 0) = [''B'']" "importers (heap s' 1) = [''A'']"
      "importers (heap s' 2) = [''B'']"
    and deps': "imports' (heap s' 2) = []"
    using mc imps deps
    by (simp_all add: s'_def request_edges_def getByModuleId_def set_add_def Let_def)
  have search: "isCurcularImport s' (''B'' # zs) ''C'' = None" for zs
    by (rule isCurcularImport_diverges[OF mc' imps'(1,2)]) simp_all
  have reg: "register_importer s' 2 [''A'', ''B''] = s'"
    by (rule register_importer_known) (simp add: imps'(3))
  obtain m where m: "meta (heap s 2) = Some m" "id' m = ''C''"
    using mt by auto
  have m': "meta (heap s' 2) = Some m"
    using m(1) mc by (simp add: s'_def request_edges_def getByModuleId_def Let_def)
  have "cachedRequest plain_helpers s' ''C'' 2 [''A'', ''B''] None = None"
    using m' m(2) deps' imps'(3) search[of "[]"]
    by (simp add: cachedRequest_def reg cycle_check_def isCurcularModule_def)
  then have "request plain_helpers s 1 ''B'' [''A'', ''B''] ''C'' 2 None = None"
    using m by (simp add: request_def s'_def)
  moreover have "isCurcularImport s' (importers (heap s' 2)) ''C'' = None"
    using search[of "[]"] imps'(3) by simp
  ultimately show ?thesis using s unfolding s'_def by blast
qed

section \<open>The importer edge and the cycle check of a request\<close>

lemma grown_refl: "grown st st"
  by (simp add: grown_def)

lemma grown_trans: "grown a b \<Longrightarrow> grown b c \<Longrightarrow> grown a c"
  by (auto simp: grown_def)

lemma getByModuleId_grown: "getByModuleId st k = (r, st') \<Longrightarrow> grown st st'"
  by (auto simp: getByModuleId_def grown_def split: option.splits)

lemma isCurcularImport_grown:
  assumes "isCurcularImport st imps mid = Some y"
  shows "grown st (snd y)"
  using assms
proof (induction rule: isCurcularImport.raw_induct[rotated 1, consumes 1])
  case (1 f st imps mid y)
  note step = this
  show ?case
  proof (cases imps)
    case Nil
    with step(2) show ?thesis by (auto simp: grown_refl)
  next
    case (Cons importer rest)
    show ?thesis
    proof (cases "importer = mid")
      case True
      with step(2) Cons show ?thesis by (auto simp: grown_refl)
    next
      case False
      obtain r st1 where g: "getByModuleId st importer = (r, st1)"
        by (cases "getByModuleId st importer")
      note g1 = getByModuleId_grown[OF g]
      show ?thesis
      proof (cases "importers (heap st1 r) \<noteq> []")
        case True
        with step(2) Cons False g obtain found st2 where
          inner: "f st1 (importers (heap st1 r)) mid = Some (found, st2)"
          and rest: "(if found then Some (True, st2) else f st2 rest mid) = Some y"
          by (auto simp: Option.bind_eq_Some_conv)
        from step(1)[OF inner] have g2: "grown st1 st2" by simp
        show ?thesis
        proof (cases found)
          case True
          with rest have "snd y = st2" by auto
          with g1 g2 show ?thesis by (auto intro: grown_trans)
        next
          case False
          with rest have "f st2 rest mid = Some y" by simp
          from step(1)[OF this] g1 g2 show ?thesis by (blast intro: grown_trans)
        qed
      next
        case False
        with step(2) Cons \<open>importer \<noteq> mid\<close> g have "f st1 rest mid = Some y" by simp
        from step(1)[OF this] g1 show ?thesis by (blast intro: grown_trans)
      qed
    qed
  qed
qed

lemma cycle_check_grown:
  assumes "cycle_check st m callstack mid = Some (circular, st')"
  shows "grown st st'"
proof -
  have "st' = st \<or> isCurcularImport st (importers (heap st m)) mid = Some (circular, st')"
    using assms by (auto simp: cycle_check_def split: if_splits)
  then show ?thesis
  proof
    assume "st' = st"
    then show ?thesis by (simp add: grown_refl)
  next
    assume "isCurcularImport st (importers (heap st m)) mid = Some (circular, st')"
    from isCurcularImport_grown[OF this] show ?thesis by simp
  qed
qed

lemma register_importer_frame:
  "nextRef (register_importer st m callstack) = nextRef st"
  "executions (register_importer st m callstack) = executions st"
  "nextFuture (register_importer st m callstack) = nextFuture st"
  "invalidations (register_importer st m callstack) = invalidations st"
  "meta (heap (register_importer st m callstack) r) = meta (heap st r)"
  "exports (heap (register_importer st m callstack) r) = exports (heap st r)"
  "promise (heap (register_importer st m callstack) r) = promise (heap st r)"
  "imports' (heap (register_importer st m callstack) r) = imports' (heap st r)"
  by (simp_all add: register_importer_def)

lemma register_importer_importers:
  "importers (heap (register_importer st m callstack) m) =
     (if callstack \<noteq> [] \<and> last callstack \<noteq> []
      then set_add (last callstack) (importers (heap st m)) else importers (heap st m))"
  by (simp add: register_importer_def)

lemma directRequest_effect:
  assumes "directRequest st ident m callstack = (p, st')"
  shows "p = nextFuture st" and "nextFuture st' = Suc (nextFuture st)"
    and "\<exists>e. executions st' = executions st @ [e] \<and> execution_of e = m"
    and "invalidations st' = invalidations st"
    and "nextRef st' = nextRef st"
    and "importers (heap st' r) = importers (heap st r)"
    and "imports' (heap st' r) = imports' (heap st r)"
    and "promise (heap st' r) = promise (heap st r)"
    and "meta (heap st' r) = meta (heap st r)"
    and "r \<noteq> m \<Longrightarrow> heap st' r = heap st r"
  using assms
  by (auto simp: directRequest_def Let_def split: option.splits fetch_result.splits)

lemma single_flight_joined:
  assumes "promise (heap st m) = Some p"
  shows "single_flight st ident m callstack = (Joined p, st)"
  using assms by (simp add: single_flight_def)

lemma single_flight_started:
  assumes "promise (heap st m) = None"
    and "single_flight st ident m callstack = (step, st')"
  shows "step = Started (nextFuture st)" and "promise (heap st' m) = Some (nextFuture st)"
    and "\<exists>e. executions st' = executions st @ [e] \<and> execution_of e = m"
    and "invalidations st' = invalidations st"
    and "nextRef st' = nextRef st"
    and "importers (heap st' r) = importers (heap st r)"
    and "r \<noteq> m \<Longrightarrow> heap st' r = heap st r"
proof -
  obtain p st1 where d: "directRequest st ident m callstack = (p, st1)"
    by (cases "directRequest st ident m callstack")
  note e = directRequest_effect[OF d]
  have st': "st' = st1\<lparr>heap := (heap st1)(m := (heap st1 m)\<lparr>promise := Some p, evaluated := Some False\<rparr>)\<rparr>"
    and step: "step = Started p"
    using assms d by (auto simp: single_flight_def)
  show "step = Started (nextFuture st)" using step e(1) by simp
  show "promise (heap st' m) = Some (nextFuture st)" using st' e(1) by simp
  show "\<exists>e. executions st' = executions st @ [e] \<and> execution_of e = m" using st' e(3) by simp
  show "invalidations st' = invalidations st" using st' e(4) by simp
  show "nextRef st' = nextRef st" using st' e(5) by simp
  show "importers (heap st' r) = importers (heap st r)" using st' e(6)[of r] e(6)[of m] by auto
  show "r \<noteq> m \<Longrightarrow> heap st' r = heap st r" using st' e(10)[of r] by simp
qed

lemma single_flight_importers:
  assumes "single_flight st ident m callstack = (step, st')"
  shows "importers (heap st' r) = importers (heap st r)"
proof (cases "promise (heap st m)")
  case None
  from single_flight_started(6)[OF None assms] show ?thesis .
next
  case (Some p)
  with assms show ?thesis by (simp add: single_flight_def)
qed

lemma cachedRequest_cases:
  assumes "meta (heap st m) = Some mt"
    and "cachedRequest H st ident m callstack metadata = Some (step, st')"
  shows "\<exists>circular st2.
           cycle_check (register_importer st m callstack) m callstack (id' mt)
             = Some (circular, st2) \<and>
           (if circular \<and> has_exports (heap st2 m)
            then step = Done (processImport H (the (exports (heap st2 m))) mt metadata) \<and>
                 st' = st2
            else single_flight st2 ident m callstack = (step, st'))"
proof (cases "cycle_check (register_importer st m callstack) m callstack (id' mt)")
  case None
  with assms show ?thesis by (simp add: cachedRequest_def)
next
  case (Some y)
  obtain circular st2 where y: "y = (circular, st2)" by (cases y)
  show ?thesis
  proof (cases "circular \<and> has_exports (heap st2 m)")
    case True
    with assms Some y have "step = Done (processImport H (the (exports (heap st2 m))) mt metadata)"
      and "st' = st2"
      by (auto simp: cachedRequest_def)
    with True Some y show ?thesis by auto
  next
    case False
    with assms Some y have "single_flight st2 ident m callstack = (step, st')"
      by (auto simp: cachedRequest_def)
    with False Some y show ?thesis by auto
  qed
qed

text \<open>
  C4, as amended. The claim: the last entry of the callstack is registered as an
  importer only when no cycle is detected. The code adds it before the cycle checks run.
  For every call with a callstack whose last entry is a non-empty string, on a record
  that has its meta, the importers of the record are the old ones with that entry added
  as soon as the entry is registered, and still so when the synchronous part of the call
  has returned, whatever the cycle checks have answered.
\<close>

theorem cachedRequest_registers_importer:
  assumes "meta (heap st m) = Some mt" and "callstack \<noteq> []" and "last callstack \<noteq> []"
    and "m < nextRef st"
    and "cachedRequest H st ident m callstack metadata = Some (step, st')"
  shows "importers (heap (register_importer st m callstack) m)
           = set_add (last callstack) (importers (heap st m)) \<and>
         importers (heap st' m) = set_add (last callstack) (importers (heap st m)) \<and>
         last callstack \<in> set (importers (heap st' m))"
proof -
  let ?st1 = "register_importer st m callstack"
  have reg: "importers (heap ?st1 m) = set_add (last callstack) (importers (heap st m))"
    using assms(2,3) by (simp add: register_importer_importers)
  from cachedRequest_cases[OF assms(1,5)] obtain circular st2 where
    cc: "cycle_check ?st1 m callstack (id' mt) = Some (circular, st2)"
    and hit: "circular \<and> has_exports (heap st2 m) \<Longrightarrow>
           step = Done (processImport H (the (exports (heap st2 m))) mt metadata) \<and> st' = st2"
    and flight: "\<not> (circular \<and> has_exports (heap st2 m)) \<Longrightarrow>
           single_flight st2 ident m callstack = (step, st')"
    by (auto split: if_splits)
  have "heap st2 m = heap ?st1 m"
    using cycle_check_grown[OF cc] assms(4) by (simp add: grown_def register_importer_frame)
  then have st2: "importers (heap st2 m) = set_add (last callstack) (importers (heap st m))"
    using reg by simp
  have after: "importers (heap st' m) = set_add (last callstack) (importers (heap st m))"
  proof (cases "circular \<and> has_exports (heap st2 m)")
    case True
    with hit st2 show ?thesis by simp
  next
    case False
    from single_flight_importers[OF flight[OF False]] st2 show ?thesis by simp
  qed
  have "last callstack \<in> set (set_add (last callstack) (importers (heap st m)))"
    by (simp add: set_add_def)
  with reg after show ?thesis by simp
qed

lemma B_resolves_A_state:
  "\<exists>s. B_resolves_A = Some (0, 1, 0, s) \<and> nextRef s = 2 \<and>
       meta (heap s 0) = Some \<lparr>result = ViteFetchResult (Some ''code'') (Some ''A'') False, id' = ''A''\<rparr> \<and>
       exports (heap s 0) = Some (Ref 0) \<and> promise (heap s 0) = Some 0 \<and>
       importers (heap s 0) = [] \<and> imports' (heap s 0) = [''B''] \<and>
       executions s = [RunInlined 0, RunInlined 1] \<and> nextFuture s = 2"
  by (simp add: B_resolves_A_def runner_defs)

lemma B_requests_A:
  "\<exists>s s'. B_resolves_A = Some (0, 1, 0, s) \<and>
       cachedRequest plain_helpers s ''A'' 0 [''A'', ''B''] None = Some (Done (Inr (Ref 0)), s') \<and>
       cycle_check (register_importer s 0 [''A'', ''B'']) 0 [''A'', ''B''] ''A''
         = Some (True, register_importer s 0 [''A'', ''B'']) \<and>
       importers (heap s 0) = [] \<and> importers (heap s' 0) = [''B''] \<and>
       executions s' = executions s \<and> promise (heap s' 0) = Some 0"
  by (simp add: B_resolves_A_def runner_defs)

text \<open>
  C4, the claim as stated fails. In the run of \<open>B_resolves_A\<close> the code of B then
  requests A with the callstack A, B: the first cycle check answers yes (A is on the
  callstack) and the exports of A are returned, and B, which was not among the importers
  of A before the request, is among them after it.
\<close>

theorem cachedRequest_cycle_still_registers:
  "case B_resolves_A of
     None \<Rightarrow> False
   | Some (a, b, a', s) \<Rightarrow>
       importers (heap s a') = [] \<and>
       cycle_check (register_importer s a' [''A'', ''B'']) a' [''A'', ''B''] ''A''
         = Some (True, register_importer s a' [''A'', ''B'']) \<and>
       (case cachedRequest plain_helpers s ''A'' a' [''A'', ''B''] None of
          Some (Done (Inr v), s') \<Rightarrow> v = Ref 0 \<and> importers (heap s' a') = [''B'']
        | _ \<Rightarrow> False)"
proof -
  obtain s s' where s: "B_resolves_A = Some (0, 1, 0, s)"
    and r: "cachedRequest plain_helpers s ''A'' 0 [''A'', ''B''] None = Some (Done (Inr (Ref 0)), s')"
    and c: "cycle_check (register_importer s 0 [''A'', ''B'']) 0 [''A'', ''B''] ''A''
         = Some (True, register_importer s 0 [''A'', ''B''])"
    and i: "importers (heap s 0) = []" "importers (heap s' 0) = [''B'']"
    using B_requests_A by blast
  show ?thesis unfolding s by (simp add: r c i)
qed

theorem cachedRequest_registers_importer_witness:
  "case B_resolves_A of
     None \<Rightarrow> False
   | Some (a, b, a', s) \<Rightarrow>
       meta (heap s a') \<noteq> None \<and> a' < nextRef s \<and>
       (case cachedRequest plain_helpers s ''A'' a' [''A'', ''B''] None of
          None \<Rightarrow> False
        | Some (step, s') \<Rightarrow>
            importers (heap s' a') = set_add ''B'' (importers (heap s a')) \<and>
            ''B'' \<in> set (importers (heap s' a')))"
proof -
  obtain s where s: "B_resolves_A = Some (0, 1, 0, s)" and n: "nextRef s = 2"
    and m: "meta (heap s 0) = Some \<lparr>result = ViteFetchResult (Some ''code'') (Some ''A'') False, id' = ''A''\<rparr>"
    using B_resolves_A_state by blast
  obtain s' where r: "cachedRequest plain_helpers s ''A'' 0 [''A'', ''B''] None = Some (Done (Inr (Ref 0)), s')"
    using B_requests_A unfolding s by auto
  have lt: "0 < nextRef s" using n by simp
  have "importers (heap s' 0) = set_add (last [''A'', ''B'']) (importers (heap s 0)) \<and>
        last [''A'', ''B''] \<in> set (importers (heap s' 0))"
    using cachedRequest_registers_importer[OF m _ _ lt r] by (simp add: set_add_def)
  then show ?thesis unfolding s using n m r by (simp add: set_add_def)
qed

lemma cycle_check_detects:
  assumes "mid \<in> set callstack \<or> isCurcularModule (heap st m) \<or>
           (\<exists>s. isCurcularImport st (importers (heap st m)) mid = Some (True, s))"
  shows "\<exists>st2. cycle_check st m callstack mid = Some (True, st2)"
  using assms by (auto simp: cycle_check_def)

text \<open>
  C2. When one of the three cycle checks holds for a request on a record that has its
  meta (the id is on the callstack, or a module it imports is among its importers, or
  the search through the importers returns and has found the id), the synchronous part of
  \<^verbatim>\<open>cachedRequest\<close> returns. If the record has exports, these go through
  \<^verbatim>\<open>processImport\<close> and are the result, no execution is started and the promise of the
  record is left as it is. If it has none, the request does not fail: it goes on as any
  request does, joining the promise on the record or, when there is none, starting
  \<^verbatim>\<open>directRequest\<close> and storing its promise.
\<close>

theorem cachedRequest_circular:
  assumes "meta (heap st m) = Some mt" and "m < nextRef st"
    and "st1 = register_importer st m callstack"
    and "id' mt \<in> set callstack \<or> isCurcularModule (heap st1 m) \<or>
           (\<exists>s. isCurcularImport st1 (importers (heap st1 m)) (id' mt) = Some (True, s))"
  shows "\<exists>step st'.
           cachedRequest H st ident m callstack metadata = Some (step, st') \<and>
           (has_exports (heap st m) \<longrightarrow>
              step = Done (processImport H (the (exports (heap st m))) mt metadata) \<and>
              executions st' = executions st \<and> nextFuture st' = nextFuture st \<and>
              promise (heap st' m) = promise (heap st m)) \<and>
           (\<not> has_exports (heap st m) \<longrightarrow>
              (case promise (heap st m) of
                 Some p \<Rightarrow> step = Joined p \<and> executions st' = executions st
               | None \<Rightarrow>
                   step = Started (nextFuture st) \<and>
                   promise (heap st' m) = Some (nextFuture st) \<and>
                   (\<exists>e. executions st' = executions st @ [e] \<and> execution_of e = m)))"
proof -
  from cycle_check_detects[OF assms(4)] obtain st2 where
    cc: "cycle_check st1 m callstack (id' mt) = Some (True, st2)" by blast
  have g: "grown st1 st2" by (rule cycle_check_grown[OF cc])
  have lt: "m < nextRef st1" using assms(2,3) by (simp add: register_importer_frame)
  have same: "heap st2 m = heap st1 m" using g lt by (simp add: grown_def)
  have ex: "exports (heap st2 m) = exports (heap st m)"
    and pr: "promise (heap st2 m) = promise (heap st m)"
    using same assms(3) by (simp_all add: register_importer_frame)
  have log: "executions st2 = executions st" "nextFuture st2 = nextFuture st"
    using g assms(3) by (simp_all add: grown_def register_importer_frame)
  have he: "has_exports (heap st2 m) = has_exports (heap st m)"
    using ex by (simp add: has_exports_def)
  show ?thesis
  proof (cases "has_exports (heap st m)")
    case True
    then have "cachedRequest H st ident m callstack metadata
                 = Some (Done (processImport H (the (exports (heap st m))) mt metadata), st2)"
      using assms(1) cc he ex by (simp add: cachedRequest_def assms(3)[symmetric])
    with True log pr show ?thesis by simp
  next
    case False
    obtain step st' where sf: "single_flight st2 ident m callstack = (step, st')"
      by (cases "single_flight st2 ident m callstack")
    have req: "cachedRequest H st ident m callstack metadata = Some (step, st')"
      using assms(1) cc he False sf by (simp add: cachedRequest_def assms(3)[symmetric])
    show ?thesis
    proof (cases "promise (heap st m)")
      case None
      then have none: "promise (heap st2 m) = None" using pr by simp
      from single_flight_started(1,2,3)[OF none sf] req False None log
      show ?thesis by simp
    next
      case (Some p)
      then have "promise (heap st2 m) = Some p" using pr by simp
      from single_flight_joined[OF this, of ident callstack] sf
      have "step = Joined p" "st' = st2" by simp_all
      with req False Some log show ?thesis by simp
    qed
  qed
qed

lemma A_changed_state:
  "\<exists>s. A_changed = Some (0, Started 0, 0, s) \<and> nextRef s = 1 \<and>
       meta (heap s 0) = Some \<lparr>result = ViteFetchResult (Some ''code2'') (Some ''A'') True, id' = ''A''\<rparr> \<and>
       exports (heap s 0) = None \<and> promise (heap s 0) = None \<and>
       executions s = [RunInlined 0] \<and> invalidations s = [0] \<and> nextFuture s = 1"
  by (simp add: A_changed_def runner_defs changed_transport_def)

theorem cachedRequest_circular_witness:
  "(case B_resolves_A of
      None \<Rightarrow> False
    | Some (a, b, a', s) \<Rightarrow>
        has_exports (heap s a') \<and>
        (\<exists>st'. cachedRequest plain_helpers s ''A'' a' [''A'', ''B''] None
                 = Some (Done (Inr (Ref 0)), st') \<and>
               executions st' = executions s \<and> promise (heap st' a') = promise (heap s a'))) \<and>
   (case A_changed of
      None \<Rightarrow> False
    | Some (a, first, a', s) \<Rightarrow>
        \<not> has_exports (heap s a') \<and> promise (heap s a') = None \<and>
        (\<exists>st'. cachedRequest plain_helpers s ''A'' a' [''A''] None
                 = Some (Started (nextFuture s), st') \<and>
               promise (heap st' a') = Some (nextFuture s) \<and>
               (\<exists>e. executions st' = executions s @ [e] \<and> execution_of e = a')))"
proof -
  obtain s where s: "B_resolves_A = Some (0, 1, 0, s)" and n: "nextRef s = 2"
    and m: "meta (heap s 0) = Some \<lparr>result = ViteFetchResult (Some ''code'') (Some ''A'') False, id' = ''A''\<rparr>"
    and e: "exports (heap s 0) = Some (Ref 0)"
    using B_resolves_A_state by blast
  have he: "has_exports (heap s 0)" using e by (simp add: has_exports_def)
  have lt: "0 < nextRef s" using n by simp
  have cyc: "id' \<lparr>result = ViteFetchResult (Some ''code'') (Some ''A'') False, id' = ''A''\<rparr> \<in> set [''A'', ''B''] \<or>
      isCurcularModule (heap (register_importer s 0 [''A'', ''B'']) 0) \<or>
      (\<exists>s'. isCurcularImport (register_importer s 0 [''A'', ''B''])
               (importers (heap (register_importer s 0 [''A'', ''B'']) 0))
               (id' \<lparr>result = ViteFetchResult (Some ''code'') (Some ''A'') False, id' = ''A''\<rparr>)
             = Some (True, s'))"
    by simp
  from cachedRequest_circular[OF m lt refl cyc, of plain_helpers "''A''" None] he e
  have first: "\<exists>st'. cachedRequest plain_helpers s ''A'' 0 [''A'', ''B''] None
                 = Some (Done (Inr (Ref 0)), st') \<and>
               executions st' = executions s \<and> promise (heap st' 0) = promise (heap s 0)"
    by (auto simp: processImport_def)
  obtain t where t: "A_changed = Some (0, Started 0, 0, t)" and tn: "nextRef t = 1"
    and tm: "meta (heap t 0) = Some \<lparr>result = ViteFetchResult (Some ''code2'') (Some ''A'') True, id' = ''A''\<rparr>"
    and te: "exports (heap t 0) = None" and tp: "promise (heap t 0) = None"
    using A_changed_state by blast
  have the: "\<not> has_exports (heap t 0)" using te by (simp add: has_exports_def)
  have tlt: "0 < nextRef t" using tn by simp
  have tcyc: "id' \<lparr>result = ViteFetchResult (Some ''code2'') (Some ''A'') True, id' = ''A''\<rparr> \<in> set [''A''] \<or>
      isCurcularModule (heap (register_importer t 0 [''A'']) 0) \<or>
      (\<exists>s'. isCurcularImport (register_importer t 0 [''A''])
               (importers (heap (register_importer t 0 [''A'']) 0))
               (id' \<lparr>result = ViteFetchResult (Some ''code2'') (Some ''A'') True, id' = ''A''\<rparr>)
             = Some (True, s'))"
    by simp
  from cachedRequest_circular[OF tm tlt refl tcyc, of plain_helpers "''A''" None] the tp
  have second: "\<exists>st'. cachedRequest plain_helpers t ''A'' 0 [''A''] None
                 = Some (Started (nextFuture t), st') \<and>
               promise (heap st' 0) = Some (nextFuture t) \<and>
               (\<exists>e. executions st' = executions t @ [e] \<and> execution_of e = 0)"
    by auto
  show ?thesis unfolding s t using he first the tp second by simp
qed

section \<open>The env object\<close>

text \<open>
  C9, the claim as stated fails: reading the key \<^verbatim>\<open>MODE\<close>, written out in the source
  as \<^verbatim>\<open>import.meta.env.MODE\<close>, through the env object of the runner throws.
\<close>

theorem envProxy_get_literal_throws:
  "envProxy_get (StringKey ''MODE'') = Inl (DynamicEnvAccess ''MODE'')"
  by (simp add: envProxy_get_def)

text \<open>
  C9, as amended. Every property read through the env object of the runner throws the
  error that names the key, whatever the key: the trap has no list of known keys and
  cannot tell a literal access from a computed one.
\<close>

theorem envProxy_get_always_throws:
  "envProxy_get p = Inl (DynamicEnvAccess (String_of p)) \<and> (\<nexists>v. envProxy_get p = Inr v)"
proof -
  have "envProxy_get p = Inl (DynamicEnvAccess (String_of p))"
    by (simp add: envProxy_get_def)
  then show ?thesis by simp
qed

section \<open>Resolution: errors, ids and the file index\<close>

lemma getByModuleId_fresh_meta:
  assumes "getByModuleId st k = (r, st')"
  shows "(meta (heap st' r) \<noteq> None)
           = (case moduleCache st k of Some r \<Rightarrow> meta (heap st r) \<noteq> None | None \<Rightarrow> False)"
  using assms by (auto simp: getByModuleId_def empty_module_def split: option.splits)

lemma cachedModule_lookup_cached:
  assumes "\<not> destroyed st"
  shows "\<exists>c st1. cachedModule_lookup H st url0
                   = Inr (normalizeAbsoluteUrl H url0 (root st), c,
                          has_cached_meta st (normalizeAbsoluteUrl H url0 (root st)), st1) \<and>
                 grown st st1"
proof -
  let ?url = "normalizeAbsoluteUrl H url0 (root st)"
  let ?k = "(case urlToIdMap st ?url of
               Some normalized \<Rightarrow> if normalized \<noteq> [] then normalized else ?url
             | None \<Rightarrow> ?url)"
  obtain c st1 where g: "getByModuleId st ?k = (c, st1)" by (cases "getByModuleId st ?k")
  have k: "moduleCache st ?k = cached_record st ?url"
    by (simp add: cached_record_def split: option.splits)
  have "(meta (heap st1 c) \<noteq> None) = has_cached_meta st ?url"
    using getByModuleId_fresh_meta[OF g] k by (simp add: has_cached_meta_def)
  moreover have "cachedModule_lookup H st url0 = Inr (?url, c, meta (heap st1 c) \<noteq> None, st1)"
    using assms g by (auto simp: cachedModule_lookup_def Let_def split: option.splits)
  ultimately show ?thesis using getByModuleId_grown[OF g] by auto
qed





lemma getByModuleId_files:
  assumes "getByModuleId st k = (r, st')"
  shows "fileToIdMap st' = fileToIdMap st"
  using getByModuleId_grown[OF assms] by (simp add: grown_def)

lemma cachedModule_fetched_files:
  assumes "cachedModule_fetched H st url c fetched = Inr (m, st')"
    and "file_if_any fetched = Some f"
  shows "fileToIdMap st' =
           (fileToIdMap st)(f \<mapsto> (case fileToIdMap st f of Some ids \<Rightarrow> ids | None \<Rightarrow> [])
                                  @ [moduleId_of H url fetched])"
proof -
  have answered: "fetched \<noteq> CachedFetchResult"
    using assms(2) by (auto simp: file_if_any_def)
  obtain r st1 where g: "getByModuleId st (moduleId_of H url fetched) = (r, st1)"
    by (cases "getByModuleId st (moduleId_of H url fetched)")
  have "fileToIdMap st1 = fileToIdMap st" by (rule getByModuleId_files[OF g])
  then show ?thesis
    using assms answered g
    by (auto simp: cachedModule_fetched_def Let_def invalidateModule_def)
qed

lemma has_cached_meta_cleared: "\<not> has_cached_meta (clearCache st) url"
  by (simp add: has_cached_meta_def cached_record_def clearCache_def)

text \<open>
  C10. \<^verbatim>\<open>clearCache\<close> leaves the store without records and the url index without
  entries, and the HMR client, when there is one, without listeners; \<^verbatim>\<open>destroy\<close> does
  the same, drops the client and marks the runner destroyed. Neither touches the file
  index: it is the same map afterwards. A resolution that is answered after either of
  them (it was waiting for the transport), and a resolution that is made after
  \<^verbatim>\<open>clearCache\<close>, when the answer has a file, put the id at the end of the list the file
  had before the clearing.
\<close>

theorem clearCache_keeps_fileToIdMap:
  "moduleCache (clearCache st) = Map.empty \<and> urlToIdMap (clearCache st) = Map.empty \<and>
   hmrClient (clearCache st) = (case hmrClient st of Some listeners \<Rightarrow> Some [] | None \<Rightarrow> None) \<and>
   fileToIdMap (clearCache st) = fileToIdMap st \<and>
   moduleCache (destroy st) = Map.empty \<and> urlToIdMap (destroy st) = Map.empty \<and>
   hmrClient (destroy st) = None \<and> destroyed (destroy st) \<and>
   fileToIdMap (destroy st) = fileToIdMap st \<and>
   (\<forall>cleared m st'.
      (cleared = clearCache st \<or> cleared = destroy st) \<and>
      file_if_any fetched = Some f \<and>
      cachedModule_fetched H cleared url c fetched = Inr (m, st') \<longrightarrow>
      fileToIdMap st' f
        = Some ((case fileToIdMap st f of Some ids \<Rightarrow> ids | None \<Rightarrow> [])
                @ [moduleId_of H url fetched])) \<and>
   (\<forall>answer m st'.
      fetchedModule_of fetchModule (normalizeAbsoluteUrl H url0 (root st)) importer False
        = Inr answer \<and>
      file_if_any answer = Some f \<and>
      cachedModule H fetchModule (clearCache st) url0 importer = Inr (m, st') \<longrightarrow>
      fileToIdMap st' f
        = Some ((case fileToIdMap st f of Some ids \<Rightarrow> ids | None \<Rightarrow> [])
                @ [moduleId_of H (normalizeAbsoluteUrl H url0 (root st)) answer]))"
proof -
  have files: "fileToIdMap (clearCache st) = fileToIdMap st" "fileToIdMap (destroy st) = fileToIdMap st"
    by (simp_all add: clearCache_def destroy_def)
  have appended: "fileToIdMap st' f
        = Some ((case fileToIdMap st f of Some ids \<Rightarrow> ids | None \<Rightarrow> []) @ [moduleId_of H url fetched])"
    if "cleared = clearCache st \<or> cleared = destroy st" and "file_if_any fetched = Some f"
      and "cachedModule_fetched H cleared url c fetched = Inr (m, st')" for cleared m st'
  proof -
    have "fileToIdMap cleared = fileToIdMap st" using that(1) files by auto
    with cachedModule_fetched_files[OF that(3,2)] show ?thesis by simp
  qed
  let ?url = "normalizeAbsoluteUrl H url0 (root st)"
  have again: "fileToIdMap st' f
        = Some ((case fileToIdMap st f of Some ids \<Rightarrow> ids | None \<Rightarrow> []) @ [moduleId_of H ?url answer])"
    if "fetchedModule_of fetchModule ?url importer False = Inr answer"
      and "file_if_any answer = Some f"
      and "cachedModule H fetchModule (clearCache st) url0 importer = Inr (m, st')" for answer m st'
  proof -
    have live: "\<not> destroyed (clearCache st)"
      using that(3) by (auto simp: cachedModule_def cachedModule_lookup_def)
    have rt: "root (clearCache st) = root st" by (simp add: clearCache_def)
    from cachedModule_lookup_cached[OF live, of H url0] obtain c st1 where
      l: "cachedModule_lookup H (clearCache st) url0 = Inr (?url, c, False, st1)"
      and g: "grown (clearCache st) st1"
      by (auto simp: rt has_cached_meta_cleared)
    have "cachedModule_fetched H st1 ?url c answer = Inr (m, st')"
      using that(1,3) l by (simp add: cachedModule_def)
    from cachedModule_fetched_files[OF this that(2)] g files(1)
    show ?thesis by (simp add: grown_def)
  qed
  have "moduleCache (clearCache st) = Map.empty" "urlToIdMap (clearCache st) = Map.empty"
    "hmrClient (clearCache st) = (case hmrClient st of Some listeners \<Rightarrow> Some [] | None \<Rightarrow> None)"
    "moduleCache (destroy st) = Map.empty" "urlToIdMap (destroy st) = Map.empty"
    "hmrClient (destroy st) = None" "destroyed (destroy st)"
    by (simp_all add: clearCache_def destroy_def)
  with files appended again show ?thesis by blast
qed

lemma A_resolved_state:
  "\<exists>s. A_resolved = Some (0, s) \<and> fileToIdMap s ''A'' = Some [''A''] \<and>
       hmrClient s = Some [7] \<and> root s = ''/r/'' \<and> \<not> destroyed s"
  by (simp add: A_resolved_def runner_defs)

lemma A_cleared_resolved:
  "\<exists>s s'. A_resolved = Some (0, s) \<and>
       cachedModule plain_helpers plain_transport (clearCache s) ''A'' None = Inr (1, s') \<and>
       meta (heap s' 1) = meta (heap s 0) \<and> meta (heap s 0) \<noteq> None"
  by (simp add: A_resolved_def runner_defs clearCache_def)

theorem clearCache_keeps_fileToIdMap_witness:
  "case A_resolved of
     None \<Rightarrow> False
   | Some (a, s) \<Rightarrow>
       fileToIdMap s ''A'' = Some [''A''] \<and> hmrClient s = Some [7] \<and>
       moduleCache (clearCache s) ''A'' = None \<and> urlToIdMap (clearCache s) ''A'' = None \<and>
       hmrClient (clearCache s) = Some [] \<and> fileToIdMap (clearCache s) ''A'' = Some [''A''] \<and>
       fileToIdMap (destroy s) ''A'' = Some [''A''] \<and>
       (case cachedModule plain_helpers plain_transport (clearCache s) ''A'' None of
          Inl e \<Rightarrow> False
        | Inr (m, s') \<Rightarrow> fileToIdMap s' ''A'' = Some [''A'', ''A''])"
proof -
  obtain s where s: "A_resolved = Some (0, s)" and f: "fileToIdMap s ''A'' = Some [''A'']"
    and h: "hmrClient s = Some [7]" and rt: "root s = ''/r/''" and live: "\<not> destroyed s"
    using A_resolved_state by blast
  have url: "normalizeAbsoluteUrl plain_helpers ''A'' (root s) = ''A''"
    by (simp add: plain_helpers_def)
  have answer: "fetchedModule_of plain_transport ''A'' None False
                  = Inr (ViteFetchResult (Some ''code'') (Some ''A'') False)"
    by (simp add: fetchedModule_of_def plain_transport_def startsWith_def)
  have fl: "file_if_any (ViteFetchResult (Some ''code'') (Some ''A'') False) = Some ''A''"
    by (simp add: file_if_any_def)
  have ident: "moduleId_of plain_helpers ''A'' (ViteFetchResult (Some ''code'') (Some ''A'') False) = ''A''"
    by (simp add: moduleId_of_def file_if_any_def query_of_def plain_helpers_def)
  obtain m s' where r: "cachedModule plain_helpers plain_transport (clearCache s) ''A'' None = Inr (m, s')"
    using A_cleared_resolved unfolding s by auto
  note c = clearCache_keeps_fileToIdMap[of s "ViteFetchResult (Some ''code'') (Some ''A'') False"
      "''A''" plain_helpers "''A''" 0 plain_transport "''A''" None]
  have "fileToIdMap s' ''A'' = Some [''A'', ''A'']"
    using c r f by (simp add: url answer fl ident)
  moreover have "moduleCache (clearCache s) ''A'' = None" "urlToIdMap (clearCache s) ''A'' = None"
    "hmrClient (clearCache s) = Some []" "fileToIdMap (clearCache s) ''A'' = Some [''A'']"
    "fileToIdMap (destroy s) ''A'' = Some [''A'']"
    using c f h by simp_all
  ultimately show ?thesis unfolding s using f h r by simp
qed















section \<open>One execution for each life of a record\<close>

lemma within_refl: "within st st m"
  by (simp add: within_def)

lemma within_trans: "within a b m \<Longrightarrow> within b c m \<Longrightarrow> within a c m"
  by (auto simp: within_def)

lemma within_same:
  assumes "promise (heap st' m) = promise (heap st m)" and "executions st' = executions st"
    and "invalidations st' = invalidations st" and "nextRef st \<le> nextRef st'"
  shows "within st st' m"
  using assms by (simp add: within_def started_def evaluated_by_def reset_def idle_def)

lemma grown_within:
  assumes "grown st st'" and "m < nextRef st"
  shows "within st st' m"
  using assms by (intro within_same) (simp_all add: grown_def)

lemma register_importer_within: "within st (register_importer st r callstack) m"
  by (intro within_same) (simp_all add: register_importer_frame)

lemma single_flight_within:
  assumes "single_flight st ident r callstack = (s, st')"
  shows "within st st' m"
proof (cases "promise (heap st r)")
  case (Some p)
  with assms have "st' = st" by (simp add: single_flight_def)
  then show ?thesis by (simp add: within_refl)
next
  case None
  note f = single_flight_started[OF None assms]
  from f(3) obtain e where e: "executions st' = executions st @ [e]" "execution_of e = r" by blast
  show ?thesis
  proof (cases "r = m")
    case True
    with e f(2,4,5) None show ?thesis
      by (simp add: within_def started_def evaluated_by_def reset_def idle_def)
  next
    case False
    with e f(4,5) f(7)[of m] show ?thesis
      by (simp add: within_def started_def evaluated_by_def reset_def idle_def)
  qed
qed

lemma cachedRequest_within:
  assumes "cachedRequest H st ident r callstack metadata = Some (s, st')" and "m < nextRef st"
  shows "within st st' m"
proof (cases "meta (heap st r)")
  case None
  with assms have "st' = st" by (simp add: cachedRequest_def)
  then show ?thesis by (simp add: within_refl)
next
  case (Some mt)
  from cachedRequest_cases[OF Some assms(1)] obtain circular st2 where
    cc: "cycle_check (register_importer st r callstack) r callstack (id' mt) = Some (circular, st2)"
    and rest: "if circular \<and> has_exports (heap st2 r)
               then s = Done (processImport H (the (exports (heap st2 r))) mt metadata) \<and> st' = st2
               else single_flight st2 ident r callstack = (s, st')"
    by blast
  have lt: "m < nextRef (register_importer st r callstack)"
    using assms(2) by (simp add: register_importer_frame)
  have w2: "within st st2 m"
    using register_importer_within grown_within[OF cycle_check_grown[OF cc] lt]
    by (rule within_trans)
  show ?thesis
  proof (cases "circular \<and> has_exports (heap st2 r)")
    case True
    with rest w2 show ?thesis by simp
  next
    case False
    with rest have "single_flight st2 ident r callstack = (s, st')" by simp
    from w2 single_flight_within[OF this] show ?thesis by (rule within_trans)
  qed
qed

lemma request_edges_within:
  assumes "m < nextRef st"
  shows "within st (request_edges st r moduleId resolvedId) m"
proof -
  obtain d st1 where g: "getByModuleId st resolvedId = (d, st1)"
    by (cases "getByModuleId st resolvedId")
  note gr = getByModuleId_grown[OF g]
  have "heap st1 m = heap st m" using gr assms by (simp add: grown_def)
  then show ?thesis
    using g gr
    by (intro within_same) (auto simp: request_edges_def Let_def grown_def)
qed

lemma cachedModule_lookup_within:
  assumes "cachedModule_lookup H st url0 = Inr (url, c, isCached, st')" and "m < nextRef st"
  shows "within st st' m"
proof -
  have "\<exists>k. getByModuleId st k = (c, st')"
    using assms(1) by (auto simp: cachedModule_lookup_def Let_def split: if_splits option.splits prod.splits)
  then obtain k where "getByModuleId st k = (c, st')" by blast
  from grown_within[OF getByModuleId_grown[OF this] assms(2)] show ?thesis .
qed

lemma invalidateModule_within: "within st (invalidateModule st r) m"
  by (simp add: within_def invalidateModule_def started_def evaluated_by_def reset_def idle_def)

lemma cachedModule_fetched_within:
  assumes "cachedModule_fetched H st url c fetched = Inr (r, st')" and "m < nextRef st"
  shows "within st st' m"
proof (cases "fetched = CachedFetchResult")
  case True
  with assms have "st' = st" by (auto simp: cachedModule_fetched_def split: if_splits)
  then show ?thesis by (simp add: within_refl)
next
  case False
  obtain r0 st1 where g: "getByModuleId st (moduleId_of H url fetched) = (r0, st1)"
    by (cases "getByModuleId st (moduleId_of H url fetched)")
  define st2 where "st2 = (if invalidate_of fetched then invalidateModule st1 r0 else st1)"
  have w1: "within st st1 m" by (rule grown_within[OF getByModuleId_grown[OF g] assms(2)])
  have w2: "within st1 st2 m" by (simp add: st2_def invalidateModule_within within_refl)
  have "promise (heap st' m) = promise (heap st2 m)" "executions st' = executions st2"
    "invalidations st' = invalidations st2" "nextRef st' = nextRef st2"
    using assms(1) False g
    by (auto simp: cachedModule_fetched_def Let_def st2_def split: option.splits)
  then have "within st2 st' m" by (intro within_same) simp_all
  with w1 w2 show ?thesis by (blast intro: within_trans)
qed

lemma event_step_within:
  assumes "event_step H ev st = Some st'" and "m < nextRef st"
  shows "within st st' m"
proof (cases ev)
  case (Request ident r callstack metadata)
  with assms(1) obtain s where "cachedRequest H st ident r callstack metadata = Some (s, st')"
    by (auto split: option.splits)
  from cachedRequest_within[OF this assms(2)] show ?thesis .
next
  case (Settled r mt metadata settled)
  with assms(1) show ?thesis
    by (intro within_same) (auto simp: cachedRequest_settled_def)
next
  case (ExternalDone r v)
  with assms(1) show ?thesis
    by (intro within_same) (auto simp: externalDone_def)
next
  case (Edges r moduleId resolvedId)
  with assms(1) request_edges_within[OF assms(2)] show ?thesis by auto
next
  case (Lookup url)
  show ?thesis
  proof (cases "cachedModule_lookup H st url")
    case (Inl err)
    with Lookup assms(1) show ?thesis by (simp add: within_refl)
  next
    case (Inr y)
    obtain url' c isCached st1 where y: "y = (url', c, isCached, st1)" by (cases y)
    with Inr Lookup assms(1) have "st' = st1" by simp
    with cachedModule_lookup_within[OF Inr[unfolded y] assms(2)] show ?thesis by simp
  qed
next
  case (Fetched url c fetched)
  show ?thesis
  proof (cases "cachedModule_fetched H st url c fetched")
    case (Inl err)
    with Fetched assms(1) show ?thesis by (simp add: within_refl)
  next
    case (Inr y)
    obtain r st1 where y: "y = (r, st1)" by (cases y)
    with Inr Fetched assms(1) have "st' = st1" by simp
    with cachedModule_fetched_within[OF Inr[unfolded y] assms(2)] show ?thesis by simp
  qed
next
  case ClearCache
  with assms(1) show ?thesis
    by (intro within_same) (auto simp: clearCache_def)
next
  case Destroy
  with assms(1) show ?thesis
    by (intro within_same) (auto simp: destroy_def clearCache_def)
qed

lemma run_within:
  assumes "run H evs st = Some st'" and "m < nextRef st"
  shows "within st st' m"
  using assms
proof (induction evs arbitrary: st)
  case Nil
  then show ?case by (simp add: within_refl)
next
  case (Cons ev evs)
  from Cons.prems(1) obtain st1 where s: "event_step H ev st = Some st1" and r: "run H evs st1 = Some st'"
    by (auto split: option.splits)
  note w = event_step_within[OF s Cons.prems(2)]
  then have "m < nextRef st1" using Cons.prems(2) by (simp add: within_def)
  from w Cons.IH[OF r this] show ?case by (rule within_trans)
qed

lemma single_flight_counts:
  assumes "promise (heap st m) = None" and "meta (heap st m) = Some mt"
    and "single_flight st ident m callstack = (s, st')"
  shows "started st' m = started st m + 1"
    and "evaluated_by st' m = evaluated_by st m + (if runnable (result mt) then 1 else 0)"
proof -
  obtain p st1 where d: "directRequest st ident m callstack = (p, st1)"
    by (cases "directRequest st ident m callstack")
  have st': "executions st' = executions st1"
    using assms(1,3) d by (auto simp: single_flight_def)
  have log: "executions st1 = executions st @
               [case result mt of
                  ExternalFetchResult e t i \<Rightarrow> RunExternal m
                | ViteFetchResult None f i \<Rightarrow> FailedLoad m
                | ViteFetchResult (Some c) f i \<Rightarrow> RunInlined m
                | CachedFetchResult \<Rightarrow> FailedLoad m]"
    using d assms(2)
    by (auto simp: directRequest_def Let_def split: fetch_result.splits option.splits)
  show "started st' m = started st m + 1"
    using st' log by (simp add: started_def split: fetch_result.splits option.splits)
  show "evaluated_by st' m = evaluated_by st m + (if runnable (result mt) then 1 else 0)"
    using st' log by (simp add: evaluated_by_def split: fetch_result.splits option.splits)
qed

lemma isCurcularModule_loop_none: "\<not> isCurcularModule_loop imps []"
  by (induction imps) simp_all

lemma cachedRequest_top_level:
  assumes "meta (heap st m) = Some mt" and "importers (heap st m) = []"
  shows "cachedRequest H st ident m [] metadata = Some (single_flight st ident m [])"
proof -
  have "cycle_check (register_importer st m []) m [] (id' mt) = Some (False, st)"
    using assms(2)
    by (simp add: register_importer_def cycle_check_def isCurcularModule_def
        isCurcularModule_loop_none isCurcularImport.simps)
  then show ?thesis using assms(1) by (simp add: cachedRequest_def)
qed

lemma single_flight_meta:
  assumes "single_flight st ident m callstack = (step, st')"
  shows "meta (heap st' r) = meta (heap st r)"
proof (cases "promise (heap st m)")
  case None
  obtain p st1 where d: "directRequest st ident m callstack = (p, st1)"
    by (cases "directRequest st ident m callstack")
  have "st' = st1\<lparr>heap := (heap st1)(m := (heap st1 m)\<lparr>promise := Some p, evaluated := Some False\<rparr>)\<rparr>"
    using assms None d by (auto simp: single_flight_def)
  then show ?thesis using directRequest_effect(9)[OF d, of r] directRequest_effect(9)[OF d, of m]
    by auto
next
  case (Some p)
  with assms show ?thesis by (simp add: single_flight_def)
qed

lemma joined_run:
  assumes "meta (heap st m) = Some mt" and "importers (heap st m) = []"
    and "promise (heap st m) = Some p"
  shows "run H (map (\<lambda>(ident, metadata). Request ident m [] metadata) reqs) st = Some st"
proof (induction reqs)
  case Nil
  show ?case by simp
next
  case (Cons req reqs)
  obtain ident metadata where req: "req = (ident, metadata)" by (cases req)
  have "cachedRequest H st ident m [] metadata = Some (Joined p, st)"
    using cachedRequest_top_level[OF assms(1,2)] single_flight_joined[OF assms(3)] by simp
  then show ?case using Cons.IH by (simp add: req)
qed

lemma import_cycle_request_stuck:
  "\<exists>s. import_cycle = Some s \<and> promise (heap s 2) = None \<and> meta (heap s 2) \<noteq> None \<and>
       executions s = [RunInlined 0, RunInlined 1] \<and>
       request plain_helpers s 1 ''B'' [''A'', ''B''] ''C'' 2 None = None"
proof -
  have "\<exists>s. import_cycle = Some s \<and>
       moduleCache s ''A'' = Some 0 \<and> moduleCache s ''B'' = Some 1 \<and>
       moduleCache s ''C'' = Some 2 \<and>
       importers (heap s 0) = [''B''] \<and> importers (heap s 1) = [''A''] \<and>
       importers (heap s 2) = [] \<and> imports' (heap s 2) = [] \<and>
       map_option id' (meta (heap s 2)) = Some ''C'' \<and> promise (heap s 2) = None \<and>
       executions s = [RunInlined 0, RunInlined 1]"
    by (simp add: import_cycle_def B_resolves_A_def runner_defs)
  then obtain s where s: "import_cycle = Some s"
    and mc: "moduleCache s ''A'' = Some 0" "moduleCache s ''B'' = Some 1"
      "moduleCache s ''C'' = Some 2"
    and imps: "importers (heap s 0) = [''B'']" "importers (heap s 1) = [''A'']"
      "importers (heap s 2) = []"
    and deps: "imports' (heap s 2) = []"
    and mt: "map_option id' (meta (heap s 2)) = Some ''C''"
    and idle: "promise (heap s 2) = None"
    and log: "executions s = [RunInlined 0, RunInlined 1]"
    by blast
  define s' where "s' = request_edges s 1 ''B'' ''C''"
  have mc': "moduleCache s' ''A'' = Some 0" "moduleCache s' ''B'' = Some 1"
    and imps': "importers (heap s' 0) = [''B'']" "importers (heap s' 1) = [''A'']"
      "importers (heap s' 2) = [''B'']"
    and deps': "imports' (heap s' 2) = []"
    using mc imps deps
    by (simp_all add: s'_def request_edges_def getByModuleId_def set_add_def Let_def)
  have search: "isCurcularImport s' [''B''] ''C'' = None"
    by (rule isCurcularImport_diverges[OF mc' imps'(1,2)]) simp_all
  have reg: "register_importer s' 2 [''A'', ''B''] = s'"
    by (rule register_importer_known) (simp add: imps'(3))
  obtain m where m: "meta (heap s 2) = Some m" "id' m = ''C''"
    using mt by auto
  have m': "meta (heap s' 2) = Some m"
    using m(1) mc by (simp add: s'_def request_edges_def getByModuleId_def Let_def)
  have "cachedRequest plain_helpers s' ''C'' 2 [''A'', ''B''] None = None"
    using m' m(2) deps' imps'(3) search
    by (simp add: cachedRequest_def reg cycle_check_def isCurcularModule_def)
  then have "request plain_helpers s 1 ''B'' [''A'', ''B''] ''C'' 2 None = None"
    using m by (simp add: request_def s'_def)
  with s idle log m(1) show ?thesis by auto
qed

text \<open>
  C1, as amended. For a record that exists:

  \<^item> over every sequence of operations that all return, the invocations of
    \<^verbatim>\<open>directRequest\<close> on the record grow by no more than its invalidations, plus one if
    it had no promise at the start, so between two invalidations there is at most one;

  \<^item> a request that returns from its cycle check does exactly one of three things. If
    the check has found a cycle and the record has exports, the exports are returned
    through \<^verbatim>\<open>processImport\<close> at once: nothing is started or awaited and the promise on
    the record is left as it is. Otherwise, if the record has a promise, the request
    awaits that very promise and starts nothing. Otherwise it invokes
    \<^verbatim>\<open>directRequest\<close> once and the promise is on the record when the request suspends;

  \<^item> when a request is made on a record that has its meta, no promise and no exports,
    then after it and any operations that follow, all of which return and none of which
    invalidates the record, \<^verbatim>\<open>directRequest\<close> has run exactly once more on the record,
    the record still holds the promise of that run, and the evaluator was called once
    more if the fetch result is one to run, and not at all otherwise;

  \<^item> requests with an empty callstack (those of \<^verbatim>\<open>import\<close>) on a record that has its
    meta, no promise and no importers always return: any number of them, at least one,
    one after the other, end in a state in which \<^verbatim>\<open>directRequest\<close> has run exactly once
    more on the record, with the same count of evaluator calls as above.

  What a request does whose cycle check does not return is not part of the statement.
\<close>

theorem cachedRequest_single_flight:
  assumes "m < nextRef st"
  shows "(\<forall>evs st'. run H evs st = Some st' \<longrightarrow>
            started st' m + reset st m + idle st' m \<le> started st m + reset st' m + idle st m) \<and>
         (\<forall>ident callstack metadata s st'.
            cachedRequest H st ident m callstack metadata = Some (s, st') \<longrightarrow>
            (case meta (heap st m) of
               None \<Rightarrow> s = Done (Inl TypeError) \<and> st' = st
             | Some mt \<Rightarrow>
                 (\<exists>circular st2.
                    cycle_check (register_importer st m callstack) m callstack (id' mt)
                      = Some (circular, st2) \<and>
                    (if circular \<and> has_exports (heap st m)
                     then s = Done (processImport H (the (exports (heap st m))) mt metadata) \<and>
                          executions st' = executions st \<and>
                          promise (heap st' m) = promise (heap st m)
                     else
                       (case promise (heap st m) of
                          Some p \<Rightarrow>
                            s = Joined p \<and> executions st' = executions st \<and>
                            promise (heap st' m) = Some p
                        | None \<Rightarrow>
                            s = Started (nextFuture st) \<and>
                            promise (heap st' m) = Some (nextFuture st) \<and>
                            started st' m = started st m + 1))))) \<and>
         (\<forall>mt ident callstack metadata evs st'.
            meta (heap st m) = Some mt \<and> promise (heap st m) = None \<and> \<not> has_exports (heap st m) \<and>
            run H (Request ident m callstack metadata # evs) st = Some st' \<and>
            reset st' m = reset st m \<longrightarrow>
            started st' m = started st m + 1 \<and> promise (heap st' m) = Some (nextFuture st) \<and>
            evaluated_by st' m = evaluated_by st m + (if runnable (result mt) then 1 else 0)) \<and>
         (\<forall>mt reqs.
            meta (heap st m) = Some mt \<and> promise (heap st m) = None \<and>
            importers (heap st m) = [] \<and> reqs \<noteq> [] \<longrightarrow>
            (\<exists>st'. run H (map (\<lambda>(ident, metadata). Request ident m [] metadata) reqs) st = Some st' \<and>
                   started st' m = started st m + 1 \<and> promise (heap st' m) = Some (nextFuture st) \<and>
                   evaluated_by st' m = evaluated_by st m + (if runnable (result mt) then 1 else 0)))"
proof -
  have bound: "\<forall>evs st'. run H evs st = Some st' \<longrightarrow>
            started st' m + reset st m + idle st' m \<le> started st m + reset st' m + idle st m"
  proof (intro allI impI)
  fix evs st'
  assume "run H evs st = Some st'"
  from run_within[OF this assms]
  show "started st' m + reset st m + idle st' m \<le> started st m + reset st' m + idle st m"
    by (simp add: within_def)
  qed
  have request: "\<forall>ident callstack metadata s st'.
            cachedRequest H st ident m callstack metadata = Some (s, st') \<longrightarrow>
            (case meta (heap st m) of
               None \<Rightarrow> s = Done (Inl TypeError) \<and> st' = st
             | Some mt \<Rightarrow>
                 (\<exists>circular st2.
                    cycle_check (register_importer st m callstack) m callstack (id' mt)
                      = Some (circular, st2) \<and>
                    (if circular \<and> has_exports (heap st m)
                     then s = Done (processImport H (the (exports (heap st m))) mt metadata) \<and>
                          executions st' = executions st \<and>
                          promise (heap st' m) = promise (heap st m)
                     else
                       (case promise (heap st m) of
                          Some p \<Rightarrow>
                            s = Joined p \<and> executions st' = executions st \<and>
                            promise (heap st' m) = Some p
                        | None \<Rightarrow>
                            s = Started (nextFuture st) \<and>
                            promise (heap st' m) = Some (nextFuture st) \<and>
                            started st' m = started st m + 1))))"
  proof (intro allI impI)
  fix ident callstack metadata s st'
  assume req: "cachedRequest H st ident m callstack metadata = Some (s, st')"
  show "case meta (heap st m) of
          None \<Rightarrow> s = Done (Inl TypeError) \<and> st' = st
        | Some mt \<Rightarrow>
            (\<exists>circular st2.
               cycle_check (register_importer st m callstack) m callstack (id' mt)
                 = Some (circular, st2) \<and>
               (if circular \<and> has_exports (heap st m)
                then s = Done (processImport H (the (exports (heap st m))) mt metadata) \<and>
                     executions st' = executions st \<and>
                     promise (heap st' m) = promise (heap st m)
                else
                  (case promise (heap st m) of
                     Some p \<Rightarrow>
                       s = Joined p \<and> executions st' = executions st \<and>
                       promise (heap st' m) = Some p
                   | None \<Rightarrow>
                       s = Started (nextFuture st) \<and>
                       promise (heap st' m) = Some (nextFuture st) \<and>
                       started st' m = started st m + 1)))"
  proof (cases "meta (heap st m)")
    case None
    with req have "s = Done (Inl TypeError)" "st' = st" by (simp_all add: cachedRequest_def)
    then show ?thesis using None by simp
  next
    case (Some mt)
    let ?st1 = "register_importer st m callstack"
    from cachedRequest_cases[OF Some req] obtain circular st2 where
      cc: "cycle_check ?st1 m callstack (id' mt) = Some (circular, st2)"
      and rest: "if circular \<and> has_exports (heap st2 m)
               then s = Done (processImport H (the (exports (heap st2 m))) mt metadata) \<and> st' = st2
               else single_flight st2 ident m callstack = (s, st')"
      by blast
    have g: "grown ?st1 st2" by (rule cycle_check_grown[OF cc])
    have "heap st2 m = heap ?st1 m" using g assms by (simp add: grown_def register_importer_frame)
    then have pr: "promise (heap st2 m) = promise (heap st m)"
      and ex: "exports (heap st2 m) = exports (heap st m)"
      and mt2: "meta (heap st2 m) = Some mt"
      using Some by (simp_all add: register_importer_frame)
    have he: "has_exports (heap st2 m) = has_exports (heap st m)"
      using ex by (simp add: has_exports_def)
    have log: "executions st2 = executions st" "nextFuture st2 = nextFuture st"
      using g by (simp_all add: grown_def register_importer_frame)
    have "if circular \<and> has_exports (heap st m)
          then s = Done (processImport H (the (exports (heap st m))) mt metadata) \<and>
               executions st' = executions st \<and>
               promise (heap st' m) = promise (heap st m)
          else
            (case promise (heap st m) of
               Some p \<Rightarrow>
                 s = Joined p \<and> executions st' = executions st \<and>
                 promise (heap st' m) = Some p
             | None \<Rightarrow>
                 s = Started (nextFuture st) \<and>
                 promise (heap st' m) = Some (nextFuture st) \<and>
                 started st' m = started st m + 1)"
    proof (cases "circular \<and> has_exports (heap st m)")
      case True
      with rest he ex pr log show ?thesis by simp
    next
      case False
      with rest he have sf: "single_flight st2 ident m callstack = (s, st')" by simp
      show ?thesis
      proof (cases "promise (heap st m)")
        case None
        then have none: "promise (heap st2 m) = None" using pr by simp
        from single_flight_started(1,2)[OF none sf] single_flight_counts(1)[OF none mt2 sf]
          log None False
        show ?thesis by (simp add: started_def)
      next
        case (Some p)
        then have "promise (heap st2 m) = Some p" using pr by simp
        from single_flight_joined[OF this, of ident callstack] sf
        have "s = Joined p" "st' = st2" by simp_all
        with pr log Some False show ?thesis by simp
      qed
    qed
    with cc Some show ?thesis by auto
  qed
  qed
  have once: "\<forall>mt ident callstack metadata evs st'.
            meta (heap st m) = Some mt \<and> promise (heap st m) = None \<and> \<not> has_exports (heap st m) \<and>
            run H (Request ident m callstack metadata # evs) st = Some st' \<and>
            reset st' m = reset st m \<longrightarrow>
            started st' m = started st m + 1 \<and> promise (heap st' m) = Some (nextFuture st) \<and>
            evaluated_by st' m = evaluated_by st m + (if runnable (result mt) then 1 else 0)"
  proof (intro allI impI)
  fix mt ident callstack metadata evs st'
  assume h: "meta (heap st m) = Some mt \<and> promise (heap st m) = None \<and> \<not> has_exports (heap st m) \<and>
            run H (Request ident m callstack metadata # evs) st = Some st' \<and>
            reset st' m = reset st m"
  then obtain s st1 where req: "cachedRequest H st ident m callstack metadata = Some (s, st1)"
    and rn: "run H evs st1 = Some st'"
    by (auto split: option.splits)
  let ?st0 = "register_importer st m callstack"
  from h have mt: "meta (heap st m) = Some mt" by simp
  from cachedRequest_cases[OF mt req] obtain circular st2 where
    cc: "cycle_check ?st0 m callstack (id' mt) = Some (circular, st2)"
    and rest: "if circular \<and> has_exports (heap st2 m)
             then s = Done (processImport H (the (exports (heap st2 m))) mt metadata) \<and> st1 = st2
             else single_flight st2 ident m callstack = (s, st1)"
    by blast
  have g: "grown ?st0 st2" by (rule cycle_check_grown[OF cc])
  have same: "heap st2 m = heap ?st0 m" using g assms by (simp add: grown_def register_importer_frame)
  have none: "promise (heap st2 m) = None" and mt2: "meta (heap st2 m) = Some mt"
    and noex: "\<not> has_exports (heap st2 m)"
    using same h by (simp_all add: register_importer_frame has_exports_def)
  have log: "executions st2 = executions st" "nextFuture st2 = nextFuture st"
    using g by (simp_all add: grown_def register_importer_frame)
  from rest noex have sf: "single_flight st2 ident m callstack = (s, st1)" by simp
  have p1: "promise (heap st1 m) = Some (nextFuture st)"
    using single_flight_started(2)[OF none sf] log by simp
  have c1: "started st1 m = started st m + 1"
    "evaluated_by st1 m = evaluated_by st m + (if runnable (result mt) then 1 else 0)"
    using single_flight_counts[OF none mt2 sf] log by (simp_all add: started_def evaluated_by_def)
  have w1: "within st st1 m" by (rule cachedRequest_within[OF req assms])
  then have lt1: "m < nextRef st1" using assms by (simp add: within_def)
  have w: "within st1 st' m" by (rule run_within[OF rn lt1])
  have r1: "reset st1 m = reset st m" "reset st' m = reset st1 m"
    using w1 w h by (simp_all add: within_def)
  have i1: "idle st1 m = 0" using p1 by (simp add: idle_def)
  have s': "started st' m = started st1 m"
    using w r1 i1 by (simp add: within_def)
  then have "promise (heap st' m) = promise (heap st1 m)"
    using w r1 by (simp add: within_def)
  moreover have "evaluated_by st' m = evaluated_by st1 m"
    using w s' by (simp add: within_def)
  ultimately show "started st' m = started st m + 1 \<and> promise (heap st' m) = Some (nextFuture st) \<and>
            evaluated_by st' m = evaluated_by st m + (if runnable (result mt) then 1 else 0)"
    using s' c1 p1 by simp
  qed
  have each: "\<exists>st'. run H (map (\<lambda>(ident, metadata). Request ident m [] metadata) reqs) st = Some st' \<and>
                   started st' m = started st m + 1 \<and> promise (heap st' m) = Some (nextFuture st) \<and>
                   evaluated_by st' m = evaluated_by st m + (if runnable (result mt) then 1 else 0)"
    if h: "meta (heap st m) = Some mt \<and> promise (heap st m) = None \<and>
            importers (heap st m) = [] \<and> reqs \<noteq> []" for mt reqs
  proof -
  from h obtain ident metadata rest where reqs: "reqs = (ident, metadata) # rest"
    by (cases reqs) auto
  from h have mt: "meta (heap st m) = Some mt" and none: "promise (heap st m) = None"
    and alone: "importers (heap st m) = []" by simp_all
  obtain s st1 where sf: "single_flight st ident m [] = (s, st1)"
    by (cases "single_flight st ident m []")
  have req: "cachedRequest H st ident m [] metadata = Some (s, st1)"
    using cachedRequest_top_level[OF mt alone, of H ident metadata] sf by simp
  have mt1: "meta (heap st1 m) = Some mt" using single_flight_meta[OF sf, of m] mt by simp
  have alone1: "importers (heap st1 m) = []"
    using single_flight_importers[OF sf, of m] alone by simp
  have p1: "promise (heap st1 m) = Some (nextFuture st)"
    by (rule single_flight_started(2)[OF none sf])
  have "run H (map (\<lambda>(ident, metadata). Request ident m [] metadata) rest) st1 = Some st1"
    by (rule joined_run[OF mt1 alone1 p1])
  then have "run H (map (\<lambda>(ident, metadata). Request ident m [] metadata) reqs) st = Some st1"
    using req by (simp add: reqs)
  with single_flight_counts[OF none mt sf] p1
  show ?thesis by simp
  qed
  have top: "\<forall>mt reqs.
            meta (heap st m) = Some mt \<and> promise (heap st m) = None \<and>
            importers (heap st m) = [] \<and> reqs \<noteq> [] \<longrightarrow>
            (\<exists>st'. run H (map (\<lambda>(ident, metadata). Request ident m [] metadata) reqs) st = Some st' \<and>
                   started st' m = started st m + 1 \<and> promise (heap st' m) = Some (nextFuture st) \<and>
                   evaluated_by st' m = evaluated_by st m + (if runnable (result mt) then 1 else 0))"
    using each by blast
  show ?thesis by (intro conjI bound request once top)
qed

lemma A_requested_thrice:
  "\<exists>s s'. A_resolved = Some (0, s) \<and> nextRef s = 1 \<and>
       meta (heap s 0) = Some \<lparr>result = ViteFetchResult (Some ''code'') (Some ''A'') False, id' = ''A''\<rparr> \<and>
       promise (heap s 0) = None \<and> exports (heap s 0) = None \<and> importers (heap s 0) = [] \<and>
       executions s = [] \<and> invalidations s = [] \<and> nextFuture s = 0 \<and>
       run plain_helpers [Request ''A'' 0 [] None, Request ''A'' 0 [] None, Request ''A'' 0 [] None] s
         = Some s' \<and>
       invalidations s' = []"
  by (simp add: A_resolved_def runner_defs)

lemma A_changed_requested:
  "\<exists>s s'. A_changed = Some (0, Started 0, 0, s) \<and> invalidations s = [0] \<and>
       cachedRequest plain_helpers s ''A'' 0 [] None = Some (Started 1, s') \<and>
       executions s' = [RunInlined 0, RunInlined 0]"
  by (simp add: A_changed_def runner_defs changed_transport_def)

text \<open>
  C1, the claim as stated fails, in three ways. A is imported, and imported again after
  it has changed: the transport answers with the invalidate flag, the record of A is
  reset, and the second request starts \<^verbatim>\<open>directRequest\<close> on the same record again; the
  record has had two promises, 0 and 1, and the evaluator two calls. In the run of
  \<open>B_resolves_A\<close> the record of A has the promise 0 when the code of B requests A: the
  request finds A on the callstack and returns the exports of A at once, and awaits
  nothing. And in the run of \<open>import_cycle\<close> the record of C has no promise when the
  code of B requests C: the request does not return from its cycle check, and
  \<^verbatim>\<open>directRequest\<close> is not invoked for C.
\<close>

theorem second_execution_after_invalidation:
  "(case A_changed of
      None \<Rightarrow> False
    | Some (a, first, a', s) \<Rightarrow>
        a' = a \<and> first = Started 0 \<and> invalidations s = [a] \<and>
        (case cachedRequest plain_helpers s ''A'' a' [] None of
           Some (Started q, s') \<Rightarrow>
             q = 1 \<and> executions s' = [RunInlined a, RunInlined a] \<and> started s' a = 2 \<and>
             evaluated_by s' a = 2
         | _ \<Rightarrow> False)) \<and>
   (case B_resolves_A of
      None \<Rightarrow> False
    | Some (a, b, a', s) \<Rightarrow>
        promise (heap s a') = Some 0 \<and>
        cachedRequest plain_helpers s ''A'' a' [''A'', ''B''] None
          = Some (Done (Inr (Ref 0)), register_importer s a' [''A'', ''B''])) \<and>
   (case import_cycle of
      None \<Rightarrow> False
    | Some s \<Rightarrow>
        promise (heap s 2) = None \<and> meta (heap s 2) \<noteq> None \<and> started s 2 = 0 \<and>
        request plain_helpers s 1 ''B'' [''A'', ''B''] ''C'' 2 None = None)"
proof -
  obtain s s' where s: "A_changed = Some (0, Started 0, 0, s)" and i: "invalidations s = [0]"
    and r: "cachedRequest plain_helpers s ''A'' 0 [] None = Some (Started 1, s')"
    and e: "executions s' = [RunInlined 0, RunInlined 0]"
    using A_changed_requested by blast
  have again: "case A_changed of
      None \<Rightarrow> False
    | Some (a, first, a', s) \<Rightarrow>
        a' = a \<and> first = Started 0 \<and> invalidations s = [a] \<and>
        (case cachedRequest plain_helpers s ''A'' a' [] None of
           Some (Started q, s') \<Rightarrow>
             q = 1 \<and> executions s' = [RunInlined a, RunInlined a] \<and> started s' a = 2 \<and>
             evaluated_by s' a = 2
         | _ \<Rightarrow> False)"
    unfolding s by (simp add: i r e started_def evaluated_by_def)
  have early: "case B_resolves_A of
      None \<Rightarrow> False
    | Some (a, b, a', s) \<Rightarrow>
        promise (heap s a') = Some 0 \<and>
        cachedRequest plain_helpers s ''A'' a' [''A'', ''B''] None
          = Some (Done (Inr (Ref 0)), register_importer s a' [''A'', ''B''])"
    by (simp add: B_resolves_A_def runner_defs)
  obtain t where t: "import_cycle = Some t" and tp: "promise (heap t 2) = None"
    and tm: "meta (heap t 2) \<noteq> None"
    and te: "executions t = [RunInlined 0, RunInlined 1]"
    and tr: "request plain_helpers t 1 ''B'' [''A'', ''B''] ''C'' 2 None = None"
    using import_cycle_request_stuck by blast
  have stuck: "case import_cycle of
      None \<Rightarrow> False
    | Some s \<Rightarrow>
        promise (heap s 2) = None \<and> meta (heap s 2) \<noteq> None \<and> started s 2 = 0 \<and>
        request plain_helpers s 1 ''B'' [''A'', ''B''] ''C'' 2 None = None"
    unfolding t using tp tm te tr by (simp add: started_def)
  from again early stuck show ?thesis by (intro conjI)
qed

theorem cachedRequest_single_flight_witness:
  "case A_resolved of
     None \<Rightarrow> False
   | Some (a, s) \<Rightarrow>
       started s a = 0 \<and> promise (heap s a) = None \<and> importers (heap s a) = [] \<and>
       (case run plain_helpers
               [Request ''A'' a [] None, Request ''A'' a [] None, Request ''A'' a [] None] s of
          None \<Rightarrow> False
        | Some s' \<Rightarrow>
            started s' a = 1 \<and> evaluated_by s' a = 1 \<and> promise (heap s' a) = Some 0)"
proof -
  let ?mt = "\<lparr>result = ViteFetchResult (Some ''code'') (Some ''A'') False, id' = ''A''\<rparr>"
  obtain s s' where s: "A_resolved = Some (0, s)" and n: "nextRef s = 1"
    and m: "meta (heap s 0) = Some ?mt"
    and p: "promise (heap s 0) = None" and x: "exports (heap s 0) = None"
    and alone: "importers (heap s 0) = []"
    and e: "executions s = []" and i: "invalidations s = []" and f: "nextFuture s = 0"
    and r: "run plain_helpers [Request ''A'' 0 [] None, Request ''A'' 0 [] None, Request ''A'' 0 [] None] s
              = Some s'"
    and i': "invalidations s' = []"
    using A_requested_thrice by blast
  have lt: "0 < nextRef s" using n by simp
  have nx: "\<not> has_exports (heap s 0)" using x by (simp add: has_exports_def)
  have rs: "reset s' 0 = reset s 0" using i i' by (simp add: reset_def)
  have zero: "started s 0 = 0" "evaluated_by s 0 = 0" using e by (simp_all add: started_def evaluated_by_def)
  note c = cachedRequest_single_flight[OF lt, of plain_helpers]
  from c[THEN conjunct2, THEN conjunct2, THEN conjunct1, THEN spec[of _ ?mt],
      THEN spec[of _ "''A''"], THEN spec[of _ "[]"], THEN spec[of _ None],
      THEN spec[of _ "[Request ''A'' 0 [] None, Request ''A'' 0 [] None]"], THEN spec[of _ s']]
  have "started s' 0 = 1 \<and> evaluated_by s' 0 = 1 \<and> promise (heap s' 0) = Some 0"
    using m p nx r rs zero f by simp
  then show ?thesis unfolding s using zero p r alone by auto
qed

section \<open>\<^verbatim>\<open>exportAll\<close>\<close>

lemma map_of_replace:
  "map_of (map (\<lambda>kp. if fst kp = key then (key, p) else kp) kps) k =
     (if k = key then (case map_of kps key of Some q \<Rightarrow> Some p | None \<Rightarrow> None) else map_of kps k)"
  by (induction kps) auto

lemma defineProperty_refused:
  assumes "\<not> definable h target key"
  shows "defineProperty h target key src = Inl TypeError"
  using assms
  by (auto simp: definable_def defineProperty_def split: js_value.splits option.splits)

lemma defineProperty_accepted:
  assumes "definable h (Ref t) key"
  shows "\<exists>h'. defineProperty h (Ref t) key src = Inr h' \<and>
           (\<forall>k. own_property h' t k
                  = (if k = key then Some (Accessor src key True True) else own_property h t k)) \<and>
           (\<forall>r. r \<noteq> t \<longrightarrow> h' r = h r) \<and>
           (\<forall>k. definable h' (Ref t) k = definable h (Ref t) k)"
proof -
  from assms obtain ob where ob: "h t = Some ob"
    by (auto simp: definable_def split: option.splits)
  show ?thesis
  proof (cases "map_of (props ob) key")
    case None
    with assms ob have ext: "extensible ob" by (simp add: definable_def)
    let ?h' = "h(t \<mapsto> ob\<lparr>props := props ob @ [(key, Accessor src key True True)]\<rparr>)"
    have "defineProperty h (Ref t) key src = Inr ?h'"
      using ob None ext by (simp add: defineProperty_def)
    moreover have "own_property ?h' t k
                  = (if k = key then Some (Accessor src key True True) else own_property h t k)" for k
      using ob None by (auto simp: own_property_def map_add_def split: option.splits)
    moreover have "definable ?h' (Ref t) k = definable h (Ref t) k" for k
      using ob ext None by (auto simp: definable_def map_add_def split: option.splits)
    ultimately show ?thesis by auto
  next
    case (Some current)
    with assms ob have conf: "configurable current" by (simp add: definable_def)
    let ?h' = "h(t \<mapsto> ob\<lparr>props :=
                 map (\<lambda>kp. if fst kp = key then (key, Accessor src key True True) else kp) (props ob)\<rparr>)"
    have "defineProperty h (Ref t) key src = Inr ?h'"
      using ob Some conf by (simp add: defineProperty_def)
    moreover have "own_property ?h' t k
                  = (if k = key then Some (Accessor src key True True) else own_property h t k)" for k
      using ob Some by (simp add: own_property_def map_of_replace)
    moreover have "definable ?h' (Ref t) k = definable h (Ref t) k" for k
      using ob Some conf by (auto simp: definable_def map_of_replace split: option.splits)
    ultimately show ?thesis by auto
  qed
qed

lemma exportAll_loop_primitive: "exportAll_loop h (Prim p) s keys = h"
  by (induction keys) (simp_all add: defineProperty_def)

lemma exportAll_loop_effect:
  "(\<forall>k. own_property (exportAll_loop h (Ref t) s keys) t k
          = (if k \<in> set keys \<and> k \<noteq> ''default'' \<and> k \<noteq> ''__esModule'' \<and> definable h (Ref t) k
             then Some (Accessor s k True True) else own_property h t k)) \<and>
   (\<forall>r. r \<noteq> t \<longrightarrow> exportAll_loop h (Ref t) s keys r = h r)"
proof (induction keys arbitrary: h)
  case Nil
  show ?case by simp
next
  case (Cons key keys)
  show ?case
  proof (cases "key \<noteq> ''default'' \<and> key \<noteq> ''__esModule''")
    case False
    then have "exportAll_loop h (Ref t) s (key # keys) = exportAll_loop h (Ref t) s keys" by auto
    with Cons.IH[of h] False show ?thesis by auto
  next
    case True
    show ?thesis
    proof (cases "definable h (Ref t) key")
      case False
      from defineProperty_refused[OF False, of s] True
      have "exportAll_loop h (Ref t) s (key # keys) = exportAll_loop h (Ref t) s keys" by simp
      with Cons.IH[of h] False show ?thesis by auto
    next
      case def: True
      from defineProperty_accepted[OF def, of s] obtain h' where
        d: "defineProperty h (Ref t) key s = Inr h'"
        and own: "\<And>k. own_property h' t k
                  = (if k = key then Some (Accessor s key True True) else own_property h t k)"
        and others: "\<And>r. r \<noteq> t \<Longrightarrow> h' r = h r"
        and same: "\<And>k. definable h' (Ref t) k = definable h (Ref t) k"
        by blast
      have "exportAll_loop h (Ref t) s (key # keys) = exportAll_loop h' (Ref t) s keys"
        using d True by simp
      with Cons.IH[of h'] own others same def True show ?thesis by auto
    qed
  qed
qed

lemma js_get_accessor:
  assumes "own_property h t key = Some (Accessor s k e c)"
  shows "js_get h t key = js_get h s k"
  using assms
  by (subst js_get.simps) (auto simp: own_property_def split: option.splits)

text \<open>
  C7. \<^verbatim>\<open>exportAll\<close> changes nothing when the source is the target, a primitive, an
  array or a promise. Otherwise, for a target object other than the source: every key
  that \<^verbatim>\<open>for ... in\<close> visits on the source, but \<^verbatim>\<open>default\<close> and \<^verbatim>\<open>__esModule\<close>, and
  that can be defined on the target, is afterwards an enumerable, configurable accessor
  of the target that reads the key from the source; every other property of the target,
  also under a key that cannot be defined, is what it was, and so is every other object.
  Reading a copied key from the target gives, in every later heap in which the target
  still has that property, what reading the key from the source gives in that heap.
\<close>

theorem exportAll_live_accessors:
  "(exps = sourceModule \<or> isPrimitive sourceModule \<or> isArray h sourceModule \<or>
      isPromise h sourceModule \<longrightarrow> exportAll h exps sourceModule = h) \<and>
   (\<forall>t s key.
      exps = Ref t \<and> sourceModule = Ref s \<and> t \<noteq> s \<and>
      \<not> isArray h sourceModule \<and> \<not> isPromise h sourceModule \<longrightarrow>
      own_property (exportAll h exps sourceModule) t key =
        (if key \<in> set (for_in_keys h s) \<and> key \<noteq> ''default'' \<and> key \<noteq> ''__esModule'' \<and>
            definable h exps key
         then Some (Accessor s key True True) else own_property h t key) \<and>
      (\<forall>r. r \<noteq> t \<longrightarrow> exportAll h exps sourceModule r = h r) \<and>
      (\<forall>h2. key \<in> set (for_in_keys h s) \<and> key \<noteq> ''default'' \<and> key \<noteq> ''__esModule'' \<and>
            definable h exps key \<and>
            own_property h2 t key = own_property (exportAll h exps sourceModule) t key \<longrightarrow>
            js_get h2 t key = js_get h2 s key))"
proof -
  have noop: "exportAll h exps sourceModule = h"
    if "exps = sourceModule \<or> isPrimitive sourceModule \<or> isArray h sourceModule \<or>
        isPromise h sourceModule"
    using that by (auto simp: exportAll_def)
  have copy: "own_property (exportAll h exps sourceModule) t key =
        (if key \<in> set (for_in_keys h s) \<and> key \<noteq> ''default'' \<and> key \<noteq> ''__esModule'' \<and>
            definable h exps key
         then Some (Accessor s key True True) else own_property h t key) \<and>
      (\<forall>r. r \<noteq> t \<longrightarrow> exportAll h exps sourceModule r = h r) \<and>
      (\<forall>h2. key \<in> set (for_in_keys h s) \<and> key \<noteq> ''default'' \<and> key \<noteq> ''__esModule'' \<and>
            definable h exps key \<and>
            own_property h2 t key = own_property (exportAll h exps sourceModule) t key \<longrightarrow>
            js_get h2 t key = js_get h2 s key)"
    if h: "exps = Ref t \<and> sourceModule = Ref s \<and> t \<noteq> s \<and>
        \<not> isArray h sourceModule \<and> \<not> isPromise h sourceModule"
    for t s key
  proof -
    have target: "exps = Ref t" and source: "sourceModule = Ref s" using h by simp_all
    have run: "exportAll h (Ref t) (Ref s) = exportAll_loop h (Ref t) s (for_in_keys h s)"
      using h by (auto simp: exportAll_def)
    note e = exportAll_loop_effect[of h t s "for_in_keys h s"]
    have own: "own_property (exportAll h exps sourceModule) t key =
        (if key \<in> set (for_in_keys h s) \<and> key \<noteq> ''default'' \<and> key \<noteq> ''__esModule'' \<and>
            definable h exps key
         then Some (Accessor s key True True) else own_property h t key)"
      unfolding target source run using e by blast
    have others: "\<forall>r. r \<noteq> t \<longrightarrow> exportAll h exps sourceModule r = h r"
      unfolding target source run using e by blast
    have live: "js_get h2 t key = js_get h2 s key"
      if "key \<in> set (for_in_keys h s) \<and> key \<noteq> ''default'' \<and> key \<noteq> ''__esModule'' \<and>
            definable h exps key \<and>
            own_property h2 t key = own_property (exportAll h exps sourceModule) t key" for h2
    proof -
      from that own have "own_property h2 t key = Some (Accessor s key True True)" by simp
      then show ?thesis by (rule js_get_accessor)
    qed
    from own others live show ?thesis by blast
  qed
  from noop copy show ?thesis by blast
qed

theorem exportAll_live_accessors_witness:
  "own_property (exportAll example_heap (Ref 0) (Ref 1)) 0 ''a'' = Some (Accessor 1 ''a'' True True) \<and>
   own_property (exportAll example_heap (Ref 0) (Ref 1)) 0 ''b'' = Some (Accessor 1 ''b'' True True) \<and>
   own_property (exportAll example_heap (Ref 0) (Ref 1)) 0 ''default'' = None \<and>
   own_property (exportAll example_heap (Ref 0) (Ref 1)) 0 ''__esModule'' = None \<and>
   js_get ((exportAll example_heap (Ref 0) (Ref 1))
             (1 \<mapsto> \<lparr>kind = OrdinaryObject, props = [(''a'', Data (Prim (PNum 5)) True True)],
                    extensible = True\<rparr>)) 0 ''a'' = Some (Prim (PNum 5)) \<and>
   own_property (exportAll example_heap (Ref 2) (Ref 1)) 2 ''a'' = Some (Data (Prim (PNum 7)) True False) \<and>
   own_property (exportAll example_heap (Ref 2) (Ref 1)) 2 ''b'' = None \<and>
   exportAll example_heap (Ref 0) (Ref 0) = example_heap \<and>
   exportAll example_heap (Ref 0) (Prim PNull) = example_heap"
proof -
  let ?h' = "exportAll example_heap (Ref 0) (Ref 1)"
  let ?h2 = "?h'(1 \<mapsto> \<lparr>kind = OrdinaryObject, props = [(''a'', Data (Prim (PNum 5)) True True)],
                      extensible = True\<rparr>)"
  have keys: "for_in_keys example_heap 1 = [''a'', ''b'', ''default'', ''__esModule'']"
    "for_in_keys example_heap (Suc 0) = [''a'', ''b'', ''default'', ''__esModule'']"
    by (simp_all add: for_in_keys_def example_heap_def)
  have plain: "\<not> isArray example_heap (Ref 1)" "\<not> isPromise example_heap (Ref 1)"
    by (simp_all add: isArray_def isPromise_def example_heap_def)
  have open0: "definable example_heap (Ref 0) k" for k
    by (simp add: definable_def example_heap_def)
  have shut2: "\<not> definable example_heap (Ref 2) ''a''" "\<not> definable example_heap (Ref 2) ''b''"
    by (simp_all add: definable_def example_heap_def)
  have before: "own_property example_heap 0 k = None"
    "own_property example_heap 2 ''a'' = Some (Data (Prim (PNum 7)) True False)"
    "own_property example_heap 2 ''b'' = None" for k
    by (simp_all add: own_property_def example_heap_def)
  note to0 = exportAll_live_accessors[of "Ref 0" "Ref 1" example_heap, THEN conjunct2,
      THEN spec[of _ 0], THEN spec[of _ 1]]
  note to2 = exportAll_live_accessors[of "Ref 2" "Ref 1" example_heap, THEN conjunct2,
      THEN spec[of _ 2], THEN spec[of _ 1]]
  have a: "own_property ?h' 0 ''a'' = Some (Accessor 1 ''a'' True True)"
    using to0[THEN spec[of _ "''a''"]] plain open0[of "''a''"] by (simp add: keys)
  have b: "own_property ?h' 0 ''b'' = Some (Accessor 1 ''b'' True True)"
    using to0[THEN spec[of _ "''b''"]] plain open0[of "''b''"] by (simp add: keys)
  have d: "own_property ?h' 0 ''default'' = None"
    using to0[THEN spec[of _ "''default''"]] plain before(1)[of "''default''"] by simp
  have m: "own_property ?h' 0 ''__esModule'' = None"
    using to0[THEN spec[of _ "''__esModule''"]] plain before(1)[of "''__esModule''"] by simp
  have kept: "own_property ?h2 0 ''a'' = own_property ?h' 0 ''a''"
    by (simp add: own_property_def)
  have "js_get ?h2 0 ''a'' = js_get ?h2 1 ''a''"
    using to0[THEN spec[of _ "''a''"]] plain open0[of "''a''"] kept by (simp add: keys)
  also have "js_get ?h2 1 ''a'' = Some (Prim (PNum 5))"
    by (subst js_get.simps) simp
  finally have live: "js_get ?h2 0 ''a'' = Some (Prim (PNum 5))" .
  have frozen: "own_property (exportAll example_heap (Ref 2) (Ref 1)) 2 ''a''
                  = Some (Data (Prim (PNum 7)) True False)"
    "own_property (exportAll example_heap (Ref 2) (Ref 1)) 2 ''b'' = None"
    using to2[THEN spec[of _ "''a''"]] to2[THEN spec[of _ "''b''"]] plain shut2 before(2,3)
    by simp_all
  have same: "exportAll example_heap (Ref 0) (Ref 0) = example_heap"
    using exportAll_live_accessors[of "Ref 0" "Ref 0" example_heap] by simp
  have prim: "exportAll example_heap (Ref 0) (Prim PNull) = example_heap"
    using exportAll_live_accessors[of "Ref 0" "Prim PNull" example_heap] by simp
  from a b d m live frozen same prim show ?thesis by blast
qed

end
